theory Spec2Isabelle
  imports Complex_Main "HOL-Library.Word"
begin

unbundle bit_operations_syntax

section \<open>Numbers and small helpers of the precompute worker\<close>

text \<open>
  The worker computes on IEEE doubles and stores into \<^verbatim>\<open>Float32Array\<close>s. The embedding
  uses ideal arithmetic: a finite JavaScript number is a \<^typ>\<open>real\<close>, a typed array of floats
  is a \<^typ>\<open>real list\<close>, a \<^verbatim>\<open>Uint8Array\<close> is a list of naturals below 256, and an array
  index or a frame count is a \<^typ>\<open>nat\<close> or an \<^typ>\<open>int\<close>. Rounding to 32 or 64 bits,
  \<^verbatim>\<open>NaN\<close> and the infinities are outside the embedding; where the source turns a
  missing array element into \<^verbatim>\<open>undefined\<close> the branch it takes is written out.
  The 32-bit operators of the source (\<^verbatim>\<open>&\<close>, \<^verbatim>\<open>>>\<close>) on values that come
  from the payload are modelled on \<^typ>\<open>32 word\<close>.
\<close>

definition DEFAULT_FFT_SIZE :: int where "DEFAULT_FFT_SIZE = 2048"
definition DEFAULT_HOP_SIZE :: int where "DEFAULT_HOP_SIZE = 512"
definition DEFAULT_NUM_BANDS :: int where "DEFAULT_NUM_BANDS = 40"
definition TILE_SIZE :: nat where "TILE_SIZE = 1000"
definition EPSILON :: real where "EPSILON = 1 / 10 ^ 12"
definition SPECTROGRAM_MIN_DB :: real where "SPECTROGRAM_MIN_DB = - 100"

text \<open>\<^verbatim>\<open>clampInt(value, min, max) = Math.max(min, Math.min(max, value))\<close>.\<close>

definition clampInt :: "int \<Rightarrow> int \<Rightarrow> int \<Rightarrow> int" where
  "clampInt v lo hi = max lo (min hi v)"

text \<open>\<^verbatim>\<open>Math.round\<close> rounds half up.\<close>

definition js_round :: "real \<Rightarrow> int" where
  "js_round x = \<lfloor>x + 1 / 2\<rfloor>"

text \<open>
  \<^verbatim>\<open>Number.isInteger(parsed)\<close> on a finite number.
\<close>

definition isInteger :: "real \<Rightarrow> bool" where
  "isInteger x \<longleftrightarrow> of_int \<lfloor>x\<rfloor> = x"

text \<open>
  \<^verbatim>\<open>sanitizePowerOfTwo(value, fallback)\<close>. The argument is \<^verbatim>\<open>Number(value)\<close>:
  \<open>None\<close> stands for \<^verbatim>\<open>NaN\<close> (a missing or non-numeric field). The test
  \<^verbatim>\<open>(parsed & (parsed - 1)) !== 0\<close> converts both operands to 32-bit integers; the
  difference \<open>parsed - 1\<close> is exact, as it is in the source for values below \<open>2^53\<close>.
\<close>

definition sanitizePowerOfTwo :: "real option \<Rightarrow> int \<Rightarrow> int" where
  "sanitizePowerOfTwo v fallback =
     (case v of
        None \<Rightarrow> fallback
      | Some parsed \<Rightarrow>
          if \<not> isInteger parsed \<or> parsed < 2 then fallback
          else if (word_of_int \<lfloor>parsed\<rfloor> AND word_of_int (\<lfloor>parsed\<rfloor> - 1) :: 32 word) \<noteq> 0
               then fallback
          else \<lfloor>parsed\<rfloor>)"

section \<open>Logarithmic band mapper\<close>

record band =
  low :: real
  high :: real

record binRange =
  lowBin :: int
  highBin :: int

text \<open>
  \<^verbatim>\<open>computeBandFrequencies(numBands, sampleRate)\<close>; \<^verbatim>\<open>Math.pow\<close> on a base of at
  least 1 is \<open>powr\<close>, without the rounding of floating-point numbers.
\<close>

definition computeBandFrequencies :: "nat \<Rightarrow> real \<Rightarrow> band list" where
  "computeBandFrequencies numBands sampleRate =
     (let minFreq = 20;
          nyquist = max 20 (sampleRate / 2);
          maxFreq = max minFreq (min 20000 nyquist)
      in map (\<lambda>i. \<lparr> low = minFreq * (maxFreq / minFreq) powr (real i / real numBands),
                     high = minFreq * (maxFreq / minFreq) powr (real (i + 1) / real numBands) \<rparr>)
             [0..<numBands])"

text \<open>\<^verbatim>\<open>computeBandBinRanges(bandFrequencies, sampleRate, fftSize, numBins)\<close>.\<close>

definition computeBandBinRanges :: "band list \<Rightarrow> real \<Rightarrow> int \<Rightarrow> int \<Rightarrow> binRange list" where
  "computeBandBinRanges bandFrequencies sampleRate fftSize numBins =
     (let binWidth = sampleRate / of_int fftSize
      in map (\<lambda>b.
                let lowBin = clampInt \<lfloor>low b / binWidth\<rfloor> 0 (numBins - 1);
                    highBin = clampInt \<lfloor>high b / binWidth\<rfloor> lowBin (numBins - 1)
                in \<lparr> lowBin = lowBin, highBin = highBin \<rparr>)
             bandFrequencies)"


section \<open>Running median and onset detection\<close>

text \<open>
  \<^verbatim>\<open>computeRunningMedian(values, radius)\<close>: the window of frame \<open>i\<close> is
  \<open>values[max(0, i - radius) .. min(length - 1, i + radius)]\<close>, sorted ascending; the
  median is the element at index \<open>floor(length / 2)\<close> of the sorted window.
\<close>

definition medianWindow :: "real list \<Rightarrow> nat \<Rightarrow> nat \<Rightarrow> real list" where
  "medianWindow values radius i =
     (let start = i - radius;
          end = min (length values - 1) (i + radius)
      in sort (map (\<lambda>j. values ! j) [start..<Suc end]))"

definition computeRunningMedian :: "real list \<Rightarrow> nat \<Rightarrow> real list" where
  "computeRunningMedian values radius =
     map (\<lambda>i. let window = medianWindow values radius i;
                  k = length window div 2
              in if k < length window then window ! k else 0)
         [0..<length values]"

text \<open>
  \<^verbatim>\<open>detectOnsets(flux, medians)\<close>. The loop runs \<open>i\<close> from 1 to \<open>flux.length - 1\<close>.
  \<^verbatim>\<open>flux[i + 1] ?? 0\<close> is 0 past the end of the array. When \<open>medians\<close> is shorter
  than \<open>flux\<close>, \<^verbatim>\<open>medians[i]\<close> is \<^verbatim>\<open>undefined\<close>, the threshold is \<^verbatim>\<open>NaN\<close>
  and the test \<^verbatim>\<open>flux[i] <= threshold\<close> is false, so the frame is not skipped.
\<close>

definition belowThreshold :: "real list \<Rightarrow> real list \<Rightarrow> nat \<Rightarrow> bool" where
  "belowThreshold flux medians i \<longleftrightarrow>
     i < length medians \<and> flux ! i \<le> 4 * max (medians ! i) (1 / 10 ^ 6)"

definition onsetStep :: "real list \<Rightarrow> real list \<Rightarrow> nat \<Rightarrow> nat list \<Rightarrow> nat list" where
  "onsetStep flux medians i indexes =
     (if belowThreshold flux medians i then indexes
      else let prev = flux ! (i - 1);
               next = (if i + 1 < length flux then flux ! (i + 1) else 0)
           in if flux ! i \<ge> prev \<and> flux ! i \<ge> next then indexes @ [i] else indexes)"

definition detectOnsets :: "real list \<Rightarrow> real list \<Rightarrow> nat list" where
  "detectOnsets flux medians = fold (onsetStep flux medians) [1..<length flux] []"

section \<open>Transform engine\<close>

datatype error =
    ExpectedFloat32Array string
  | NoSamples
  | InvalidArrayLength
  | InvalidTypedArrayLength
  | FftLengthMismatch
  | FftNotPowerOfTwo

text \<open>
  The two arrays \<^verbatim>\<open>fft\<close> works on in place. Their indices and the loop variables
  \<open>bit\<close>, \<open>j\<close>, \<open>step\<close> are naturals: the 32-bit operators \<^verbatim>\<open>>>\<close>, \<^verbatim>\<open>&\<close>,
  \<^verbatim>\<open>^\<close> and \<^verbatim>\<open><<\<close> of the source agree with \<open>drop_bit\<close>, \<open>AND\<close>, \<open>XOR\<close> and
  doubling on naturals as long as every value stays below \<open>2^31\<close>, which is the case for
  arrays shorter than \<open>2^30\<close> elements.
\<close>

record fftArrays =
  re :: "real list"
  im :: "real list"

text \<open>\<^verbatim>\<open>isPowerOfTwo(value) = value > 1 && (value & (value - 1)) === 0\<close>.\<close>

definition isPowerOfTwo :: "nat \<Rightarrow> bool" where
  "isPowerOfTwo v \<longleftrightarrow> v > 1 \<and> (word_of_nat v AND word_of_nat (v - 1) :: 32 word) = 0"

text \<open>
  \<^verbatim>\<open>buildTwiddles(size, inverse)\<close>: the cosine and sine tables of length \<open>size >> 1\<close>.
  \<^verbatim>\<open>getTwiddles\<close> memoises them per size and direction, which does not change the tables
  it returns.
\<close>

record twiddles =
  cosTable :: "real list"
  sinTable :: "real list"

definition buildTwiddles :: "nat \<Rightarrow> bool \<Rightarrow> twiddles" where
  "buildTwiddles sz inverseFlag =
     (let half = sz div 2;
          sign = (if inverseFlag then 1 else - 1)
      in \<lparr> cosTable = map (\<lambda>i. cos (2 * pi * real i / real sz)) [0..<half],
           sinTable = map (\<lambda>i. sign * sin (2 * pi * real i / real sz)) [0..<half] \<rparr>)"

definition getTwiddles :: "nat \<Rightarrow> bool \<Rightarrow> twiddles" where
  "getTwiddles sz inverseFlag = buildTwiddles sz inverseFlag"

text \<open>
  The inner loop of the bit-reversal permutation:
  \<^verbatim>\<open>while (j & bit) { j ^= bit; bit >>= 1; }  j ^= bit;\<close>
  (\<open>b\<close> is the source's \<open>bit\<close>).
\<close>

function reverseIncrement :: "nat \<Rightarrow> nat \<Rightarrow> nat" where
  "reverseIncrement j b =
     (if j AND b \<noteq> 0 then reverseIncrement (j XOR b) (drop_bit 1 b) else j XOR b)"
  by pat_completeness auto
termination
proof (relation "measure (\<lambda>(j, b). b)")
  show "wf (measure (\<lambda>(j, b). b))"
    by simp
next
  fix j b :: nat
  assume "j AND b \<noteq> 0"
  then have "b \<noteq> 0"
    by (cases "b = 0") simp_all
  then show "((j XOR b, drop_bit 1 b), (j, b)) \<in> measure (\<lambda>(j, b). b)"
    by (simp add: drop_bit_eq_div)
qed

declare reverseIncrement.simps [simp del]

definition swap :: "nat \<Rightarrow> nat \<Rightarrow> 'a list \<Rightarrow> 'a list" where
  "swap i j xs = (let tmp = xs ! i; xs1 = xs[i := xs ! j] in xs1[j := tmp])"

text \<open>One iteration of the permutation loop, on the arrays and the counter \<open>j\<close>.\<close>

definition bitReversalStep :: "nat \<Rightarrow> nat \<Rightarrow> fftArrays \<times> nat \<Rightarrow> fftArrays \<times> nat" where
  "bitReversalStep sz i s =
     (let a = fst s;
          j = reverseIncrement (snd s) (drop_bit 1 sz)
      in if i < j then (\<lparr> re = swap i j (re a), im = swap i j (im a) \<rparr>, j) else (a, j))"

definition bitReversal :: "nat \<Rightarrow> fftArrays \<Rightarrow> fftArrays" where
  "bitReversal sz a = fst (fold (bitReversalStep sz) [1..<sz] (a, 0))"

text \<open>The body of the innermost butterfly loop, for one \<open>block\<close> and one \<open>i\<close>.\<close>

definition butterfly :: "nat \<Rightarrow> twiddles \<Rightarrow> nat \<Rightarrow> nat \<Rightarrow> nat \<Rightarrow> fftArrays \<Rightarrow> fftArrays" where
  "butterfly sz tws step block i a =
     (let halfStep = drop_bit 1 step;
          stride = sz div step;
          tw = i * stride;
          wr = cosTable tws ! tw;
          wi = sinTable tws ! tw;
          even = block + i;
          odd = even + halfStep;
          tr = wr * re a ! odd - wi * im a ! odd;
          ti = wr * im a ! odd + wi * re a ! odd;
          re1 = (re a)[odd := re a ! even - tr];
          im1 = (im a)[odd := im a ! even - ti];
          re2 = re1[even := re1 ! even + tr];
          im2 = im1[even := im1 ! even + ti]
      in \<lparr> re = re2, im = im2 \<rparr>)"

text \<open>
  \<^verbatim>\<open>for (block = 0; block < size; block += step)\<close> visits the multiples of \<open>step\<close>
  below \<open>size\<close>.
\<close>

definition blockStarts :: "nat \<Rightarrow> nat \<Rightarrow> nat list" where
  "blockStarts sz step = map (\<lambda>b. b * step) [0..<(sz + step - 1) div step]"

definition butterflyPass :: "nat \<Rightarrow> twiddles \<Rightarrow> nat \<Rightarrow> fftArrays \<Rightarrow> fftArrays" where
  "butterflyPass sz tws step a =
     fold (\<lambda>block. fold (butterfly sz tws step block) [0..<drop_bit 1 step]) (blockStarts sz step) a"

text \<open>
  \<^verbatim>\<open>for (step = 2; step <= size; step <<= 1)\<close>. The loop starts at 2, so \<open>step\<close> is
  never 0; the first test only makes the recursion well-founded. Doubling a natural number
  is the 32-bit shift of the source as long as \<open>size < 2^30\<close>; from there on the shift of
  the source wraps around, which this function does not follow.
\<close>

function butterflyPasses :: "nat \<Rightarrow> twiddles \<Rightarrow> nat \<Rightarrow> fftArrays \<Rightarrow> fftArrays" where
  "butterflyPasses sz tws step a =
     (if step = 0 \<or> sz < step then a
      else butterflyPasses sz tws (2 * step) (butterflyPass sz tws step a))"
  by pat_completeness auto
termination
  by (relation "measure (\<lambda>(sz, tws, step, a). Suc sz - step)") auto

declare butterflyPasses.simps [simp del]

definition scaleArrays :: "nat \<Rightarrow> fftArrays \<Rightarrow> fftArrays" where
  "scaleArrays sz a =
     (let scale = 1 / real sz
      in \<lparr> re = map (\<lambda>x. x * scale) (re a), im = map (\<lambda>x. x * scale) (im a) \<rparr>)"

text \<open>
  \<^verbatim>\<open>fft(re, im, inverse)\<close>: the result is the error thrown, if any, and the arrays as the
  call leaves them.
\<close>

definition fft :: "fftArrays \<Rightarrow> bool \<Rightarrow> error option \<times> fftArrays" where
  "fft a inverseFlag =
     (let sz = length (re a)
      in if sz \<noteq> length (im a) then (Some FftLengthMismatch, a)
         else if \<not> isPowerOfTwo sz then (Some FftNotPowerOfTwo, a)
         else let a1 = bitReversal sz a;
                  tws = getTwiddles sz inverseFlag;
                  a2 = butterflyPasses sz tws 2 a1
              in (None, if inverseFlag then scaleArrays sz a2 else a2))"

section \<open>Per-frame products\<close>

text \<open>\<^verbatim>\<open>TypedArray.fill(value, start, end)\<close> with non-negative bounds.\<close>

definition fill :: "'a list \<Rightarrow> 'a \<Rightarrow> nat \<Rightarrow> nat \<Rightarrow> 'a list" where
  "fill xs v start end = map (\<lambda>k. if start \<le> k \<and> k < end then v else xs ! k) [0..<length xs]"

text \<open>
  The byte \<^verbatim>\<open>writeBandFrame\<close> stores for one band of a frame whose peak is above
  \<open>EPSILON\<close>. A bin outside \<open>magnitudes\<close> reads \<^verbatim>\<open>undefined\<close>, the sum is
  \<^verbatim>\<open>NaN\<close> and the \<^verbatim>\<open>Uint8Array\<close> stores 0.
\<close>

definition bandByte :: "real list \<Rightarrow> real \<Rightarrow> binRange \<Rightarrow> nat" where
  "bandByte magnitudes peak r =
     (if list_ex (\<lambda>bin. bin < 0 \<or> int (length magnitudes) \<le> bin) [lowBin r..highBin r]
      then 0
      else let sum = fold (\<lambda>bin s. s + magnitudes ! nat bin) [lowBin r..highBin r] 0;
               count = highBin r - lowBin r + 1;
               average = sum / of_int count;
               normalized = min 1 (average / peak)
           in nat (clampInt (js_round (sqrt normalized * 255)) 0 255))"

text \<open>\<^verbatim>\<open>writeBandFrame(destination, frameIndex, magnitudes, peak, bandRanges)\<close>.\<close>

definition writeBandFrame ::
  "nat list \<Rightarrow> nat \<Rightarrow> real list \<Rightarrow> real \<Rightarrow> binRange list \<Rightarrow> nat list" where
  "writeBandFrame destination frameIndex magnitudes peak bandRanges =
     (let offset = frameIndex * length bandRanges
      in if peak \<le> EPSILON then fill destination 0 offset (offset + length bandRanges)
         else fold (\<lambda>bandIndex d.
                      d[offset + bandIndex := bandByte magnitudes peak (bandRanges ! bandIndex)])
                   [0..<length bandRanges] destination)"

text \<open>The byte \<^verbatim>\<open>writeSpectrogramFrame\<close> stores for one bin when the peak is above \<open>EPSILON\<close>.\<close>

definition cellByte :: "real list \<Rightarrow> real \<Rightarrow> nat \<Rightarrow> nat" where
  "cellByte magnitudes peak bin =
     (if length magnitudes \<le> bin then 0
      else let ratio = magnitudes ! bin / peak;
               db = 20 * log 10 (max ratio EPSILON);
               normalized = (db - SPECTROGRAM_MIN_DB) / (- SPECTROGRAM_MIN_DB)
           in nat (clampInt (js_round (normalized * 255)) 0 255))"

text \<open>
  \<^verbatim>\<open>writeSpectrogramFrame(tiles, frameIndex, magnitudes, peak, numBins, tileSize)\<close>;
  \<^verbatim>\<open>tiles[tileIndex]\<close> is \<^verbatim>\<open>undefined\<close> past the last tile and the function returns.
\<close>

definition writeSpectrogramFrame ::
  "nat list list \<Rightarrow> nat \<Rightarrow> real list \<Rightarrow> real \<Rightarrow> nat \<Rightarrow> nat \<Rightarrow> nat list list" where
  "writeSpectrogramFrame tiles frameIndex magnitudes peak numBins tileSize =
     (let tileIndex = frameIndex div tileSize
      in if tileSize = 0 \<or> length tiles \<le> tileIndex then tiles
         else let tile = tiles ! tileIndex;
                  frameInTile = frameIndex mod tileSize;
                  rowOffset = frameInTile * numBins
              in if peak \<le> EPSILON
                 then tiles[tileIndex := fill tile 0 rowOffset (rowOffset + numBins)]
                 else tiles[tileIndex :=
                        fold (\<lambda>bin t. t[rowOffset + bin := cellByte magnitudes peak bin])
                             [0..<numBins] tile])"

text \<open>
  \<^verbatim>\<open>createSpectrogramTiles(numFrames, numBins, tileSize)\<close>. A typed array of negative
  length cannot be created.
\<close>

definition createSpectrogramTiles :: "nat \<Rightarrow> int \<Rightarrow> nat \<Rightarrow> error + nat list list" where
  "createSpectrogramTiles numFrames numBins tileSize =
     (let tileCount = max 1 ((numFrames + tileSize - 1) div tileSize);
          lengths = map (\<lambda>tile. int (min tileSize (numFrames - tile * tileSize)) * numBins)
                        [0..<tileCount]
      in if list_ex (\<lambda>l. l < 0) lengths then Inl InvalidTypedArrayLength
         else Inr (map (\<lambda>l. replicate (nat l) 0) lengths))"

definition createHannWindow :: "nat \<Rightarrow> real list" where
  "createHannWindow sz =
     (let denominator = real sz - 1
      in map (\<lambda>i. 0.5 * (1 - cos ((2 * pi * real i) / denominator))) [0..<sz])"

text \<open>
  \<^verbatim>\<open>fillWindowedSignal(target, samples, start, fftSize, window)\<close> overwrites all
  \<open>fftSize\<close> elements of \<open>target\<close>; the result is the new contents.
\<close>

definition fillWindowedSignal :: "real list \<Rightarrow> nat \<Rightarrow> nat \<Rightarrow> real list \<Rightarrow> real list" where
  "fillWindowedSignal samples start fftSize window =
     map (\<lambda>i. let index = start + i
              in if index < length samples then samples ! index * window ! i else 0)
         [0..<fftSize]"

text \<open>
  \<^verbatim>\<open>fillMagnitudes(re, im, out)\<close> for an \<open>out\<close> of \<open>n\<close> elements: the new contents of
  \<open>out\<close> and the peak it returns.
\<close>

definition fillMagnitudes :: "fftArrays \<Rightarrow> nat \<Rightarrow> real list \<times> real" where
  "fillMagnitudes a n =
     (let out = map (\<lambda>i. sqrt ((re a ! i)\<^sup>2 + (im a ! i)\<^sup>2)) [0..<n]
      in (out, fold (\<lambda>magnitude peak. if magnitude > peak then magnitude else peak) out 0))"

text \<open>\<^verbatim>\<open>computeRmsEnvelope(samples, numFrames, hopSize)\<close>.\<close>

definition computeRmsEnvelope :: "real list \<Rightarrow> nat \<Rightarrow> nat \<Rightarrow> real list" where
  "computeRmsEnvelope samples numFrames hopSize =
     map (\<lambda>frame.
            let start = frame * hopSize
            in if length samples \<le> start then 0
               else let end = min (length samples) (start + hopSize);
                        sumSquares = fold (\<lambda>i s. s + samples ! i * samples ! i) [start..<end] 0
                    in sqrt (sumSquares / real (max 1 (end - start))))
         [0..<numFrames]"

text \<open>\<^verbatim>\<open>computePhaseCorrelation(left, right, numFrames, hopSize)\<close>.\<close>

definition computePhaseCorrelation :: "real list \<Rightarrow> real list \<Rightarrow> nat \<Rightarrow> nat \<Rightarrow> real list" where
  "computePhaseCorrelation lft rgt numFrames hopSize =
     map (\<lambda>frame.
            let start = frame * hopSize
            in if length lft \<le> start then 0
               else let end = min (length lft) (start + hopSize);
                        sumProduct = fold (\<lambda>i s. s + lft ! i * rgt ! i) [start..<end] 0;
                        sumLeftSquares = fold (\<lambda>i s. s + lft ! i * lft ! i) [start..<end] 0;
                        sumRightSquares = fold (\<lambda>i s. s + rgt ! i * rgt ! i) [start..<end] 0;
                        denominator = sqrt (sumLeftSquares * sumRightSquares)
                    in if denominator \<le> EPSILON then 0
                       else max (- 1) (min 1 (sumProduct / denominator)))
         [0..<numFrames]"

section \<open>Pipeline orchestrator\<close>

text \<open>
  The message the worker receives. A channel field is a \<^verbatim>\<open>Float32Array\<close>, an
  \<^verbatim>\<open>ArrayBuffer\<close> holding whole 32-bit floats, \<open>Missing\<close> (\<^verbatim>\<open>undefined\<close>,
  \<^verbatim>\<open>null\<close> or another falsy value) or \<open>OtherValue\<close> (any other truthy value). A numeric
  field holds \<^verbatim>\<open>Number(field)\<close>, with \<open>None\<close> for \<^verbatim>\<open>NaN\<close>; \<open>hopSize\<close>,
  \<open>numBands\<close> and \<open>numSamples\<close> are integers when they are numbers, the only values for
  which the source computes without \<^verbatim>\<open>NaN\<close>.
\<close>

datatype jsvalue = Float32Array "real list" | ArrayBuffer "real list" | Missing | OtherValue

record payload =
  left :: jsvalue
  right :: jsvalue
  sampleRate :: "real option"
  numSamples :: "int option"
  fftSize :: "real option"
  hopSize :: "int option"
  numBands :: "int option"

definition toFloat32Array :: "jsvalue \<Rightarrow> string \<Rightarrow> error + real list" where
  "toFloat32Array v name =
     (case v of
        Float32Array xs \<Rightarrow> Inr xs
      | ArrayBuffer xs \<Rightarrow> Inr xs
      | _ \<Rightarrow> Inl (ExpectedFloat32Array name))"

text \<open>A progress notification: the percentage and the stage label.\<close>

type_synonym notification = "int \<times> string"

text \<open>\<^verbatim>\<open>postProgress(percent, stage)\<close> appends one notification to those sent so far.\<close>

definition postProgress :: "real \<Rightarrow> string \<Rightarrow> notification list \<Rightarrow> notification list" where
  "postProgress percent stage sent =
     (let v = max 0 (min 100 (js_round percent)) in sent @ [(v, stage)])"

text \<open>What the short-time loop of \<^verbatim>\<open>runPrecompute\<close> reads, fixed before the loop starts.\<close>

record stftEnv =
  envLeft :: "real list"
  envRight :: "real list"
  envFftSize :: nat
  envHopSize :: nat
  envNumFrames :: nat
  envNumBins :: nat
  envWindow :: "real list"
  envRanges :: "binRange list"

text \<open>What the loop updates.\<close>

record stftState =
  bandsLeft :: "nat list"
  bandsRight :: "nat list"
  spectrogramTilesLeft :: "nat list list"
  spectrogramTilesRight :: "nat list list"
  spectralFlux :: "real list"
  prevMixedMagnitudes :: "real list"
  currMixedMagnitudes :: "real list"
  progress :: "notification list"

text \<open>
  Windowing, transform and magnitudes of one channel for one frame (the source does this
  once for the left and once for the right channel, on reused arrays).
\<close>

definition frameMagnitudes :: "stftEnv \<Rightarrow> real list \<Rightarrow> nat \<Rightarrow> error + real list \<times> real" where
  "frameMagnitudes env samples frameStart =
     (case fft \<lparr> re = fillWindowedSignal samples frameStart (envFftSize env) (envWindow env),
                 im = replicate (envFftSize env) 0 \<rparr> False of
        (Some e, _) \<Rightarrow> Inl e
      | (None, a) \<Rightarrow> Inr (fillMagnitudes a (envNumBins env)))"

text \<open>The flux accumulation over the bins of one frame.\<close>

definition frameFlux :: "nat \<Rightarrow> real list \<Rightarrow> real list \<Rightarrow> nat \<Rightarrow> real" where
  "frameFlux frame mixed prev numBins =
     fold (\<lambda>bin flux.
             if frame > 0
             then let delta = mixed ! bin - prev ! bin
                  in if delta > 0 then flux + delta else flux
             else flux)
          [0..<numBins] 0"

text \<open>The body of the loop over the frames; an error thrown by \<^verbatim>\<open>fft\<close> ends the run.\<close>

definition stftFrame :: "stftEnv \<Rightarrow> nat \<Rightarrow> stftState \<Rightarrow> error option \<times> stftState" where
  "stftFrame env frame st =
     (let frameStart = frame * envHopSize env
      in case frameMagnitudes env (envLeft env) frameStart of
           Inl e \<Rightarrow> (Some e, st)
         | Inr (magnitudesLeft, peakLeft) \<Rightarrow>
             (case frameMagnitudes env (envRight env) frameStart of
                Inl e \<Rightarrow> (Some e, st)
              | Inr (magnitudesRight, peakRight) \<Rightarrow>
                  let numBins = envNumBins env;
                      mixed = map (\<lambda>bin. 0.5 * (magnitudesLeft ! bin + magnitudesRight ! bin))
                                  [0..<numBins];
                      flux = frameFlux frame mixed (prevMixedMagnitudes st) numBins;
                      st1 = st \<lparr>
                        bandsLeft := writeBandFrame (bandsLeft st) frame magnitudesLeft peakLeft
                                       (envRanges env),
                        bandsRight := writeBandFrame (bandsRight st) frame magnitudesRight peakRight
                                       (envRanges env),
                        spectrogramTilesLeft := writeSpectrogramFrame (spectrogramTilesLeft st)
                                       frame magnitudesLeft peakLeft numBins TILE_SIZE,
                        spectrogramTilesRight := writeSpectrogramFrame (spectrogramTilesRight st)
                                       frame magnitudesRight peakRight numBins TILE_SIZE,
                        spectralFlux := (spectralFlux st)[frame := flux / real numBins],
                        prevMixedMagnitudes := mixed,
                        currMixedMagnitudes := prevMixedMagnitudes st \<rparr>
                  in (None,
                      if frame AND 31 = 0 \<or> frame = envNumFrames env - 1
                      then st1 \<lparr> progress :=
                             postProgress (20 + (real (frame + 1) / real (envNumFrames env)) * 50)
                               ''Running STFT'' (progress st1) \<rparr>
                      else st1)))"

text \<open>\<^verbatim>\<open>for (let frame = 0; frame < numFrames; frame += 1)\<close>, from \<open>frame\<close> on.\<close>

function stftLoop :: "stftEnv \<Rightarrow> nat \<Rightarrow> stftState \<Rightarrow> error option \<times> stftState" where
  "stftLoop env frame st =
     (if frame < envNumFrames env
      then (case stftFrame env frame st of
              (Some e, st') \<Rightarrow> (Some e, st')
            | (None, st') \<Rightarrow> stftLoop env (frame + 1) st')
      else (None, st))"
  by pat_completeness auto
termination
  by (relation "measure (\<lambda>(env, frame, st). envNumFrames env - frame)") auto

declare stftLoop.simps [simp del]

text \<open>
  The result bundle. The waveform summaries and the fault events are not part of the
  embedding; computing them neither throws nor posts progress.
\<close>

record resultBundle =
  r_sampleRate :: real
  r_numSamples :: int
  r_numFrames :: int
  r_duration :: real
  r_fftSize :: int
  r_hopSize :: int
  r_numBands :: int
  r_rmsLeft :: "real list"
  r_rmsRight :: "real list"
  r_bandsLeft :: "nat list"
  r_bandsRight :: "nat list"
  r_spectralFlux :: "real list"
  r_onsets :: "nat list"
  r_phaseCorrelation :: "real list"
  r_spectrogramTilesLeft :: "nat list list"
  r_spectrogramTilesRight :: "nat list list"
  r_bandFrequencies :: "band list"

text \<open>\<^verbatim>\<open>Number(x) || fallback\<close>: the fallback replaces \<^verbatim>\<open>NaN\<close> and 0.\<close>

definition numberOr :: "'a::zero option \<Rightarrow> 'a \<Rightarrow> 'a" where
  "numberOr v fallback = (case v of None \<Rightarrow> fallback | Some x \<Rightarrow> if x = 0 then fallback else x)"

text \<open>Lines 35 to 38 of the worker: the configuration \<^verbatim>\<open>runPrecompute\<close> works with.\<close>

definition effSampleRate :: "payload \<Rightarrow> real" where
  "effSampleRate p = numberOr (sampleRate p) 44100"

definition effFftSize :: "payload \<Rightarrow> int" where
  "effFftSize p = sanitizePowerOfTwo (fftSize p) DEFAULT_FFT_SIZE"

definition effHopSize :: "payload \<Rightarrow> int" where
  "effHopSize p = max 1 (numberOr (hopSize p) DEFAULT_HOP_SIZE)"

definition effNumBands :: "payload \<Rightarrow> int" where
  "effNumBands p = max 1 (numberOr (numBands p) DEFAULT_NUM_BANDS)"

text \<open>Lines 40 to 44: the number of samples analysed, for channels of the given lengths.\<close>

definition effNumSamples :: "payload \<Rightarrow> nat \<Rightarrow> nat \<Rightarrow> int" where
  "effNumSamples p leftLength rightLength =
     (let shorter = min (int leftLength) (int rightLength);
          numSamples0 = (case numSamples p of
                           None \<Rightarrow> shorter
                         | Some n \<Rightarrow> if n \<le> 0 then shorter else n)
      in min numSamples0 shorter)"

text \<open>Line 57, \<open>numFrames\<close>, and line 58, \<open>numBins = fftSize >> 1\<close> on 32-bit integers.\<close>

definition numFramesOf :: "int \<Rightarrow> int \<Rightarrow> int \<Rightarrow> int" where
  "numFramesOf numSamples1 fftSize1 hopSize1 = max 1 ((numSamples1 - fftSize1) div hopSize1 + 1)"

definition numBinsOf :: "int \<Rightarrow> int" where
  "numBinsOf fftSize1 = sint (signed_drop_bit 1 (word_of_int fftSize1 :: 32 word))"

text \<open>
  \<^verbatim>\<open>runPrecompute\<close> from line 56 on, for the configuration and the two channels cut to
  \<open>numSamples\<close>. The result is the list of progress notifications sent and the error
  thrown or the bundle returned. \<^verbatim>\<open>new Array(numBands)\<close> in
  \<^verbatim>\<open>computeBandFrequencies\<close> throws for a length of \<open>2^32\<close> or more; the allocation
  of a typed array is taken to succeed for every length that is not negative.
\<close>

definition analyseChannels ::
  "real \<Rightarrow> int \<Rightarrow> int \<Rightarrow> int \<Rightarrow> int \<Rightarrow> real list \<Rightarrow> real list
     \<Rightarrow> notification list \<times> (error + resultBundle)" where
  "analyseChannels sampleRate1 fftSize1 hopSize1 numBands1 numSamples1 left1 right1 =
     (let duration = of_int numSamples1 / sampleRate1;
          numFrames = numFramesOf numSamples1 fftSize1 hopSize1;
          numBins = numBinsOf fftSize1
      in if 2 ^ 32 \<le> numBands1 then ([], Inl InvalidArrayLength)
         else
           let bandFrequencies = computeBandFrequencies (nat numBands1) sampleRate1;
               bandBinRanges = computeBandBinRanges bandFrequencies sampleRate1 fftSize1 numBins;
               sent1 = postProgress 2 ''Initializing precompute'' [];
               sent2 = postProgress 10 ''Downsampled waveform LODs'' sent1;
               rmsLeft = computeRmsEnvelope left1 (nat numFrames) (nat hopSize1);
               rmsRight = computeRmsEnvelope right1 (nat numFrames) (nat hopSize1);
               sent3 = postProgress 20 ''Computed RMS envelope'' sent2
           in case createSpectrogramTiles (nat numFrames) numBins TILE_SIZE of
                Inl e \<Rightarrow> (sent3, Inl e)
              | Inr tiles \<Rightarrow>
                  let env = \<lparr> envLeft = left1, envRight = right1,
                              envFftSize = nat fftSize1, envHopSize = nat hopSize1,
                              envNumFrames = nat numFrames, envNumBins = nat numBins,
                              envWindow = createHannWindow (nat fftSize1),
                              envRanges = bandBinRanges \<rparr>;
                      st0 = \<lparr> bandsLeft = replicate (nat (numFrames * numBands1)) 0,
                              bandsRight = replicate (nat (numFrames * numBands1)) 0,
                              spectrogramTilesLeft = tiles,
                              spectrogramTilesRight = tiles,
                              spectralFlux = replicate (nat numFrames) 0,
                              prevMixedMagnitudes = replicate (nat numBins) 0,
                              currMixedMagnitudes = replicate (nat numBins) 0,
                              progress = postProgress 21 ''Running STFT'' sent3 \<rparr>
                  in case stftLoop env 0 st0 of
                       (Some e, st) \<Rightarrow> (progress st, Inl e)
                     | (None, st) \<Rightarrow>
                         let sent4 = postProgress 75 ''Computed logarithmic bands'' (progress st);
                             fluxMedians = computeRunningMedian (spectralFlux st) 10;
                             onsets = detectOnsets (spectralFlux st) fluxMedians;
                             sent5 = postProgress 80 ''Computed spectral flux and onsets'' sent4;
                             phaseCorrelation = computePhaseCorrelation left1 right1
                                                  (nat numFrames) (nat hopSize1);
                             sent6 = postProgress 85 ''Computed phase correlation'' sent5;
                             sent7 = postProgress 95 ''Detected signal faults'' sent6;
                             sent8 = postProgress 100 ''Precompute complete'' sent7
                         in (sent8,
                             Inr \<lparr> r_sampleRate = sampleRate1,
                                   r_numSamples = numSamples1,
                                   r_numFrames = numFrames,
                                   r_duration = duration,
                                   r_fftSize = fftSize1,
                                   r_hopSize = hopSize1,
                                   r_numBands = numBands1,
                                   r_rmsLeft = rmsLeft,
                                   r_rmsRight = rmsRight,
                                   r_bandsLeft = bandsLeft st,
                                   r_bandsRight = bandsRight st,
                                   r_spectralFlux = spectralFlux st,
                                   r_onsets = onsets,
                                   r_phaseCorrelation = phaseCorrelation,
                                   r_spectrogramTilesLeft = spectrogramTilesLeft st,
                                   r_spectrogramTilesRight = spectrogramTilesRight st,
                                   r_bandFrequencies = bandFrequencies \<rparr>))"

text \<open>
  \<^verbatim>\<open>runPrecompute\<close> from line 35 on, for the two channels as lines 32 and 33 deliver
  them: the configuration, the sample count, the check for an empty signal and the cut of
  both channels to \<open>numSamples\<close>.
\<close>

definition precomputeChannels ::
  "payload \<Rightarrow> real list \<Rightarrow> real list \<Rightarrow> notification list \<times> (error + resultBundle)" where
  "precomputeChannels p left0 right0 =
     (let numSamples1 = effNumSamples p (length left0) (length right0)
      in if numSamples1 < 1 then ([], Inl NoSamples)
         else
           let left1 = (if int (length left0) \<noteq> numSamples1 then take (nat numSamples1) left0
                        else left0);
               right1 = (if int (length right0) \<noteq> numSamples1 then take (nat numSamples1) right0
                         else right0)
           in analyseChannels (effSampleRate p) (effFftSize p) (effHopSize p) (effNumBands p)
                numSamples1 left1 right1)"

text \<open>
  \<^verbatim>\<open>runPrecompute(payload)\<close>: a missing right channel is replaced by a copy of the left
  one.
\<close>

definition runPrecompute :: "payload \<Rightarrow> notification list \<times> (error + resultBundle)" where
  "runPrecompute p =
     (case toFloat32Array (left p) ''left'' of
        Inl e \<Rightarrow> ([], Inl e)
      | Inr left0 \<Rightarrow>
          (case (if right p = Missing then Inr left0 else toFloat32Array (right p) ''right'') of
             Inl e \<Rightarrow> ([], Inl e)
           | Inr right0 \<Rightarrow> precomputeChannels p left0 right0))"

section \<open>Notions used in the statements\<close>

text \<open>The peak test of \<^verbatim>\<open>detectOnsets\<close> for frame \<open>i\<close>.\<close>

definition isOnset :: "real list \<Rightarrow> real list \<Rightarrow> nat \<Rightarrow> bool" where
  "isOnset flux medians i \<longleftrightarrow>
     \<not> belowThreshold flux medians i \<and> flux ! i \<ge> flux ! (i - 1) \<and>
     flux ! i \<ge> (if i + 1 < length flux then flux ! (i + 1) else 0)"

text \<open>
  The notifications the loop over the frames sends from frame \<open>from\<close> on when there are
  \<open>n\<close> frames, and all notifications of a run that returns a bundle.
\<close>

definition stftCheckpoints :: "nat \<Rightarrow> nat \<Rightarrow> notification list" where
  "stftCheckpoints n from =
     map (\<lambda>frame. (max 0 (min 100 (js_round (20 + (real (frame + 1) / real n) * 50))),
                   ''Running STFT''))
         (filter (\<lambda>frame. frame AND 31 = 0 \<or> frame = n - 1) [from..<n])"

definition successNotifications :: "nat \<Rightarrow> notification list" where
  "successNotifications n =
     [(2, ''Initializing precompute''), (10, ''Downsampled waveform LODs''),
      (20, ''Computed RMS envelope''), (21, ''Running STFT'')]
     @ stftCheckpoints n 0
     @ [(75, ''Computed logarithmic bands''), (80, ''Computed spectral flux and onsets''),
        (85, ''Computed phase correlation''), (95, ''Detected signal faults''),
        (100, ''Precompute complete'')]"

text \<open>The percentages of the notifications of a run, and whether the run ended in an error.\<close>

definition percents :: "notification list \<times> (error + resultBundle) \<Rightarrow> int list" where
  "percents run = map fst (fst run)"

definition failed :: "notification list \<times> (error + resultBundle) \<Rightarrow> bool" where
  "failed run = isl (snd run)"

text \<open>
  The mixed magnitudes of a frame, and what one iteration of the loop over the frames does
  to the pair of \<open>spectralFlux\<close> and \<open>prevMixedMagnitudes\<close>.
\<close>

definition mixedOf :: "stftEnv \<Rightarrow> nat \<Rightarrow> real list" where
  "mixedOf env frame =
     (case (frameMagnitudes env (envLeft env) (frame * envHopSize env),
            frameMagnitudes env (envRight env) (frame * envHopSize env)) of
        (Inr (magnitudesLeft, peakLeft), Inr (magnitudesRight, peakRight)) \<Rightarrow>
          map (\<lambda>bin. 0.5 * (magnitudesLeft ! bin + magnitudesRight ! bin)) [0..<envNumBins env]
      | _ \<Rightarrow> [])"

definition fluxStep :: "stftEnv \<Rightarrow> nat \<Rightarrow> real list \<times> real list \<Rightarrow> real list \<times> real list" where
  "fluxStep env frame s =
     ((fst s)[frame := frameFlux frame (mixedOf env frame) (snd s) (envNumBins env)
                         / real (envNumBins env)],
      mixedOf env frame)"

text \<open>The reversal of the lowest \<open>m\<close> bits of \<open>i\<close>.\<close>

fun bitrev :: "nat \<Rightarrow> nat \<Rightarrow> nat" where
  "bitrev 0 i = 0"
| "bitrev (Suc m) i = 2 ^ m * (i mod 2) + bitrev m (i div 2)"

text \<open>
  The state of an array during the permutation loop of \<^verbatim>\<open>fft\<close>, after the iteration for
  \<open>i = n\<close>: the elements whose index or reversed index is at most \<open>n\<close> have been
  exchanged.
\<close>

definition permutedUpTo :: "nat \<Rightarrow> nat \<Rightarrow> 'a list \<Rightarrow> 'a list \<Rightarrow> bool" where
  "permutedUpTo m n xs ys \<longleftrightarrow>
     length ys = length xs \<and>
     (\<forall>k < length xs. ys ! k = (if k \<le> n \<or> bitrev m k \<le> n then xs ! bitrev m k else xs ! k))"

text \<open>The complex number held at index \<open>k\<close> of the two arrays, and of the twiddle tables.\<close>

definition cz :: "fftArrays \<Rightarrow> nat \<Rightarrow> complex" where
  "cz a k = Complex (re a ! k) (im a ! k)"

definition twc :: "twiddles \<Rightarrow> nat \<Rightarrow> complex" where
  "twc tws k = Complex (cosTable tws ! k) (sinTable tws ! k)"

text \<open>
  The state of the arrays inside one butterfly pass: after \<open>n\<close> iterations of the
  innermost loop for one block, and after \<open>nb\<close> complete blocks. \<open>passValue\<close> is the
  value a complete pass leaves at index \<open>p\<close>.
\<close>

definition innerDone :: "nat \<Rightarrow> twiddles \<Rightarrow> nat \<Rightarrow> nat \<Rightarrow> nat \<Rightarrow> fftArrays \<Rightarrow> fftArrays \<Rightarrow> bool" where
  "innerDone sz tws step block n a a' \<longleftrightarrow>
     length (re a') = sz \<and> length (im a') = sz \<and>
     (\<forall>p. cz a' p =
        (if block \<le> p \<and> p < block + n
         then cz a p + twc tws ((p - block) * (sz div step)) * cz a (p + drop_bit 1 step)
         else if block + drop_bit 1 step \<le> p \<and> p < block + drop_bit 1 step + n
         then cz a (p - drop_bit 1 step)
                - twc tws ((p - block - drop_bit 1 step) * (sz div step)) * cz a p
         else cz a p))"

definition passValue :: "nat \<Rightarrow> twiddles \<Rightarrow> nat \<Rightarrow> fftArrays \<Rightarrow> nat \<Rightarrow> complex" where
  "passValue sz tws step a p =
     (let u = p mod step; h = drop_bit 1 step
      in if u < h then cz a p + twc tws (u * (sz div step)) * cz a (p + h)
         else cz a (p - h) - twc tws ((u - h) * (sz div step)) * cz a p)"

definition outerDone :: "nat \<Rightarrow> twiddles \<Rightarrow> nat \<Rightarrow> nat \<Rightarrow> fftArrays \<Rightarrow> fftArrays \<Rightarrow> bool" where
  "outerDone sz tws step nb a a' \<longleftrightarrow>
     length (re a') = sz \<and> length (im a') = sz \<and>
     (\<forall>p. cz a' p = (if p < nb * step then passValue sz tws step a p else cz a p))"

text \<open>
  The arrays after the passes with \<open>step = 2, 4, \<dots>, 2^t\<close> on an input \<open>x\<close> of length
  \<open>2^m\<close> permuted by bit reversal: every block of \<open>2^t\<close> elements holds the discrete
  Fourier sum, for the root \<open>w\<close>, of a decimated part of \<open>x\<close>.
\<close>

definition stage :: "nat \<Rightarrow> (nat \<Rightarrow> complex) \<Rightarrow> complex \<Rightarrow> nat \<Rightarrow> fftArrays \<Rightarrow> bool" where
  "stage m x w t a \<longleftrightarrow>
     length (re a) = 2 ^ m \<and> length (im a) = 2 ^ m \<and>
     (\<forall>b < 2 ^ (m - t). \<forall>u < 2 ^ t.
        cz a (b * 2 ^ t + u)
          = (\<Sum>v < 2 ^ t. x (bitrev (m - t) b + v * 2 ^ (m - t)) * w ^ (2 ^ (m - t) * v * u)))"

text \<open>The root of unity behind the twiddle tables of \<^verbatim>\<open>buildTwiddles(size, inverse)\<close>.\<close>

definition rootOf :: "nat \<Rightarrow> bool \<Rightarrow> complex" where
  "rootOf sz inverseFlag = cis ((if inverseFlag then 1 else - 1) * (2 * pi / real sz))"

text \<open>Payloads used as concrete inputs below.\<close>

definition payload_fft3 :: payload where
  "payload_fft3 = \<lparr> left = Float32Array [0], right = Missing, sampleRate = None,
                     numSamples = None, fftSize = Some 3, hopSize = None, numBands = None \<rparr>"

definition payload_uneven :: payload where
  "payload_uneven = \<lparr> left = Float32Array [0, 0], right = Float32Array [0], sampleRate = None,
                       numSamples = None, fftSize = None, hopSize = None, numBands = None \<rparr>"


text \<open>
  Twenty samples with a click in the second and in the fourth block of four samples,
  analysed with \<open>fftSize = hopSize = 4\<close>: five frames that do not overlap.
\<close>

definition clicks :: "real list" where
  "clicks = [0, 0, 0, 0,  0, 1, 0, 0,  0, 0, 0, 0,  0, 1, 0, 0,  0, 0, 0, 0]"

definition payload_clicks :: payload where
  "payload_clicks = \<lparr> left = Float32Array clicks, right = Missing, sampleRate = None,
                       numSamples = None, fftSize = Some 4, hopSize = Some 4, numBands = None \<rparr>"

text \<open>What the loop over the frames reads in the run on \<open>payload_clicks\<close>.\<close>

definition clicksEnv :: "binRange list \<Rightarrow> stftEnv" where
  "clicksEnv ranges = \<lparr> envLeft = clicks, envRight = clicks, envFftSize = 4, envHopSize = 4,
                         envNumFrames = 5, envNumBins = 2, envWindow = createHannWindow 4,
                         envRanges = ranges \<rparr>"

text \<open>Three seconds of silence at 44100 Hz with the configuration the application sends.\<close>

definition payload_three_seconds :: payload where
  "payload_three_seconds = \<lparr> left = Float32Array (replicate 132300 0),
                              right = Float32Array (replicate 132300 0), sampleRate = Some 44100,
                              numSamples = Some 132300, fftSize = Some 2048, hopSize = Some 512,
                              numBands = Some 40 \<rparr>"

section \<open>Onset detection: boundary frames and order\<close>

lemma fold_onsetStep:
  "fold (onsetStep flux medians) xs acc = acc @ filter (isOnset flux medians) xs"
  by (induction xs arbitrary: acc) (simp_all add: onsetStep_def isOnset_def Let_def)

lemma detectOnsets_filter:
  "detectOnsets flux medians = filter (isOnset flux medians) [1..<length flux]"
  by (simp add: detectOnsets_def fold_onsetStep)

lemma detectOnsets_sorted: "sorted_wrt (<) (detectOnsets flux medians)"
  unfolding detectOnsets_filter by (rule sorted_wrt_filter) simp

lemma detectOnsets_set:
  "set (detectOnsets flux medians) = {i. 1 \<le> i \<and> i < length flux \<and> isOnset flux medians i}"
  unfolding detectOnsets_filter by auto

text \<open>
  Claim C6, as the code has it: \<^verbatim>\<open>detectOnsets\<close> never reports frame 0. The last frame
  is examined like every other frame; its missing right neighbour counts as flux 0, so it
  is reported exactly when the flux has at least two frames, the last flux value exceeds
  the threshold, is at least its left neighbour and is at least 0.
\<close>

theorem onsets_boundary_frames:
  "0 \<notin> set (detectOnsets flux medians) \<and>
   (length flux - 1 \<in> set (detectOnsets flux medians) \<longleftrightarrow>
      2 \<le> length flux \<and> \<not> belowThreshold flux medians (length flux - 1) \<and>
      flux ! (length flux - 1) \<ge> flux ! (length flux - 2) \<and> flux ! (length flux - 1) \<ge> 0)"
proof -
  have "(length flux - 1) - 1 = length flux - 2" by simp
  then show ?thesis
    unfolding detectOnsets_set isOnset_def by auto
qed

theorem onsets_boundary_frames_witness:
  "0 \<notin> set (detectOnsets [0, 0, 0, 1] [0, 0, 0, 0]) \<and>
   3 \<in> set (detectOnsets [0, 0, 0, 1] [0, 0, 0, 0])"
  using onsets_boundary_frames [of "[0, 0, 0, 1]" "[0, 0, 0, 0]"]
  by (simp add: belowThreshold_def numeral_3_eq_3)

text \<open>
  Claim C6 as stated fails: for the flux \<open>[0, 0, 0, 1]\<close> and its running median the last
  frame, index 3, is reported as an onset.
\<close>

theorem last_frame_onset_counterexample:
  "length [0, 0, 0, 1 :: real] - 1
     \<in> set (detectOnsets [0, 0, 0, 1] (computeRunningMedian [0, 0, 0, 1] 10))"
  by code_simp

section \<open>Silent frames\<close>

lemma length_fill [simp]: "length (fill xs v s e) = length xs"
  by (simp add: fill_def)

lemma nth_fill: "k < length xs \<Longrightarrow> fill xs v s e ! k = (if s \<le> k \<and> k < e then v else xs ! k)"
  by (simp add: fill_def)

text \<open>
  Claim C7: for a frame whose peak is at most \<open>EPSILON\<close>, \<^verbatim>\<open>writeBandFrame\<close> only fills
  the frame's row of band bytes with 0 and \<^verbatim>\<open>writeSpectrogramFrame\<close> only fills the
  frame's row of its tile with 0: every byte of both rows is 0 and the result does not
  depend on the magnitudes or on a quotient by the peak.
\<close>

theorem silent_frame_zero:
  assumes "peak \<le> EPSILON"
  shows "writeBandFrame destination frame magnitudes peak bandRanges =
           fill destination 0 (frame * length bandRanges)
             (frame * length bandRanges + length bandRanges)
       \<and> (\<forall>b < length bandRanges. frame * length bandRanges + b < length destination \<longrightarrow>
           writeBandFrame destination frame magnitudes peak bandRanges
             ! (frame * length bandRanges + b) = 0)
       \<and> (0 < tileSize \<and> frame div tileSize < length tiles \<longrightarrow>
            writeSpectrogramFrame tiles frame magnitudes peak nBins tileSize =
              tiles[frame div tileSize :=
                fill (tiles ! (frame div tileSize)) 0 ((frame mod tileSize) * nBins)
                  ((frame mod tileSize) * nBins + nBins)]
          \<and> (\<forall>bin < nBins.
                (frame mod tileSize) * nBins + bin < length (tiles ! (frame div tileSize)) \<longrightarrow>
                writeSpectrogramFrame tiles frame magnitudes peak nBins tileSize
                  ! (frame div tileSize) ! ((frame mod tileSize) * nBins + bin) = 0))"
  using assms by (simp add: writeBandFrame_def writeSpectrogramFrame_def nth_fill Let_def)

theorem silent_frame_zero_witness:
  "(0 :: real) \<le> EPSILON
   \<and> writeBandFrame [7, 7, 7, 7] 1 [0, 0] 0
        [\<lparr>lowBin = 0, highBin = 0\<rparr>, \<lparr>lowBin = 0, highBin = 1\<rparr>] = [7, 7, 0, 0]
   \<and> writeSpectrogramFrame [[9, 9, 9, 9]] 1 [0, 0] 0 2 1000 = [[9, 9, 0, 0]]"
proof -
  have h: "(0 :: real) \<le> EPSILON" by (simp add: EPSILON_def)
  show ?thesis
    using h silent_frame_zero [OF h, of "[7, 7, 7, 7]" 1 "[0, 0]"
        "[\<lparr>lowBin = 0, highBin = 0\<rparr>, \<lparr>lowBin = 0, highBin = 1\<rparr>]" 1000 "[[9, 9, 9, 9]]" 2]
    by (simp add: fill_def upt_rec)
qed

section \<open>Band ranges\<close>

lemma length_computeBandFrequencies [simp]: "length (computeBandFrequencies n sr) = n"
  by (simp add: computeBandFrequencies_def Let_def)

lemma length_computeBandBinRanges [simp]: "length (computeBandBinRanges bs sr f nb) = length bs"
  by (simp add: computeBandBinRanges_def Let_def)
















section \<open>Transform engine: argument checks\<close>

text \<open>
  Claim C9: when the real and the imaginary array differ in length, \<^verbatim>\<open>fft\<close> throws
  before it touches either array: the call ends with the length error and both arrays are
  as they were.
\<close>

theorem fft_length_mismatch:
  "length (re a) \<noteq> length (im a) \<Longrightarrow> fft a inverseFlag = (Some FftLengthMismatch, a)"
  by (simp add: fft_def)

theorem fft_length_mismatch_witness:
  "fft \<lparr> re = [1, 2], im = [0] \<rparr> True = (Some FftLengthMismatch, \<lparr> re = [1, 2], im = [0] \<rparr>)"
  using fft_length_mismatch [of "\<lparr> re = [1, 2], im = [0] \<rparr>" True] by simp

section \<open>Powers of two and the 32-bit test\<close>

lemma numBins_eq:
  assumes "0 \<le> k" "k < 2 ^ 31"
  shows "sint (signed_drop_bit 1 (word_of_int k :: 32 word)) = k div 2"
proof -
  have "sint (word_of_int k :: 32 word) = k"
    using assms by (simp add: sint_sbintrunc' signed_take_bit_int_eq_self)
  then show ?thesis
    by (simp add: sint_signed_drop_bit_eq drop_bit_eq_div)
qed

lemma and_pred_zero_imp_pow2:
  fixes n :: nat
  assumes "0 < n" "n AND (n - 1) = 0"
  shows "\<exists>j. n = 2 ^ j"
  using assms
proof (induction n rule: less_induct)
  case (less n)
  show ?case
  proof (cases "n = 1")
    case True
    then have "n = 2 ^ 0" by simp
    then show ?thesis by blast
  next
    case False
    with less.prems have n2: "2 \<le> n" by simp
    show ?thesis
    proof (cases "even n")
      case True
      then obtain m where m: "n = 2 * m" by (auto elim: evenE)
      with n2 have m1: "1 \<le> m" by simp
      have "n - 1 = 2 * (m - 1) + 1" using m m1 by simp
      then have "n AND (n - 1) = 2 * (m AND (m - 1))"
        using m by (subst and_rec) simp
      with less.prems have "m AND (m - 1) = 0" by simp
      moreover have "m < n" "0 < m" using m m1 by simp_all
      ultimately obtain j where "m = 2 ^ j" using less.IH by blast
      then have "n = 2 ^ Suc j" using m by simp
      then show ?thesis by blast
    next
      case False
      then obtain m where m: "n = 2 * m + 1" by (auto elim: oddE)
      with n2 have m1: "1 \<le> m" by simp
      have "n AND (n - 1) = 2 * m"
        using m by (subst and_rec) simp
      with less.prems m1 show ?thesis by simp
    qed
  qed
qed

lemma pow2_and_pred_zero:
  fixes j :: nat
  shows "(2 ^ j :: nat) AND (2 ^ j - 1) = 0"
proof -
  have "(2 ^ j :: nat) AND mask j = 0"
    by (rule bit_eqI) (auto simp add: bit_simps)
  then show ?thesis by (simp add: mask_eq_exp_minus_1)
qed

lemma isPowerOfTwo_pow2: "0 < j \<Longrightarrow> isPowerOfTwo (2 ^ j)"
proof -
  assume j: "0 < j"
  have "(word_of_nat (2 ^ j) AND word_of_nat (2 ^ j - 1) :: 32 word) = word_of_nat (2 ^ j AND (2 ^ j - 1))"
    by (simp add: of_nat_and_eq)
  also have "\<dots> = 0" by (simp only: pow2_and_pred_zero) simp
  finally have "(word_of_nat (2 ^ j) AND word_of_nat (2 ^ j - 1) :: 32 word) = 0" .
  moreover have "(1::nat) < 2 ^ j"
  proof -
    have "(2::nat) ^ 1 \<le> 2 ^ j" using j by (intro power_increasing) simp_all
    then show ?thesis by simp
  qed
  ultimately show ?thesis unfolding isPowerOfTwo_def by blast
qed

lemma isPowerOfTwo_imp_pow2:
  assumes "isPowerOfTwo n" "n < 2 ^ 32"
  shows "\<exists>j. 0 < j \<and> n = 2 ^ j"
proof -
  have n: "1 < n" and w: "(word_of_nat n AND word_of_nat (n - 1) :: 32 word) = 0"
    using assms(1) unfolding isPowerOfTwo_def by blast+
  have "(word_of_nat (n AND (n - 1)) :: 32 word) = 0"
    using w by (simp only: of_nat_and_eq)
  then have d: "2 ^ 32 dvd n AND (n - 1)"
    by (simp add: word_of_nat_eq_0_iff)
  have "int (n AND (n - 1)) \<le> int n"
    by (simp only: of_nat_and_eq) (rule AND_upper1, simp)
  then have "n AND (n - 1) < 2 ^ 32" using assms(2) by simp
  with d have "n AND (n - 1) = 0"
    by (meson dvd_imp_le not_less zero_less_iff_neq_zero)
  then obtain j where j: "n = 2 ^ j" using and_pred_zero_imp_pow2 n by (metis less_trans zero_less_one)
  with n have "0 < j" by (cases j) simp_all
  with j show ?thesis by blast
qed

section \<open>The loop over the frames\<close>

lemma sanitize_ge2: "2 \<le> sanitizePowerOfTwo v DEFAULT_FFT_SIZE"
  by (auto simp add: sanitizePowerOfTwo_def DEFAULT_FFT_SIZE_def isInteger_def split: option.splits)

lemma isPowerOfTwo_2048: "isPowerOfTwo 2048"
  using isPowerOfTwo_pow2[of 11] by simp

lemma sanitize_isPowerOfTwo: "isPowerOfTwo (nat (sanitizePowerOfTwo v DEFAULT_FFT_SIZE))"
proof (cases "sanitizePowerOfTwo v DEFAULT_FFT_SIZE = DEFAULT_FFT_SIZE")
  case True
  then show ?thesis by (simp add: DEFAULT_FFT_SIZE_def isPowerOfTwo_2048)
next
  case False
  then obtain x where v: "v = Some x" and x2: "2 \<le> x"
    and w: "(word_of_int \<lfloor>x\<rfloor> AND word_of_int (\<lfloor>x\<rfloor> - 1) :: 32 word) = 0"
    and r: "sanitizePowerOfTwo v DEFAULT_FFT_SIZE = \<lfloor>x\<rfloor>"
    by (auto simp add: sanitizePowerOfTwo_def split: option.splits if_splits)
  have k: "2 \<le> \<lfloor>x\<rfloor>" using x2 by linarith
  have a: "(word_of_int \<lfloor>x\<rfloor> :: 32 word) = word_of_nat (nat \<lfloor>x\<rfloor>)"
    using k by (intro word_of_int_nat) simp
  have b: "(word_of_int (\<lfloor>x\<rfloor> - 1) :: 32 word) = word_of_nat (nat \<lfloor>x\<rfloor> - 1)"
    using k word_of_int_nat[of "\<lfloor>x\<rfloor> - 1"] by (simp add: nat_diff_distrib)
  have "1 < nat \<lfloor>x\<rfloor>" using k by simp
  then show ?thesis
    using w unfolding r isPowerOfTwo_def a b by blast
qed

lemma fft_returns:
  "length (re a) = length (im a) \<Longrightarrow> isPowerOfTwo (length (re a)) \<Longrightarrow> fst (fft a f) = None"
  by (simp add: fft_def Let_def)

lemma frameMagnitudes_Inr:
  assumes "isPowerOfTwo (envFftSize env)"
  shows "\<exists>m. frameMagnitudes env samples start = Inr m"
proof -
  let ?a = "\<lparr> re = fillWindowedSignal samples start (envFftSize env) (envWindow env),
               im = replicate (envFftSize env) 0 \<rparr>"
  have "fst (fft ?a False) = None"
    using assms by (intro fft_returns) (simp_all add: fillWindowedSignal_def)
  then show ?thesis
    by (cases "fft ?a False") (simp add: frameMagnitudes_def)
qed

lemma stftFrame_returns:
  assumes "isPowerOfTwo (envFftSize env)"
  shows "\<exists>st'. stftFrame env frame st = (None, st')
           \<and> length (spectralFlux st') = length (spectralFlux st)
           \<and> progress st' =
               (if frame AND 31 = 0 \<or> frame = envNumFrames env - 1
                then postProgress (20 + (real (frame + 1) / real (envNumFrames env)) * 50)
                       ''Running STFT'' (progress st)
                else progress st)"
proof -
  obtain ml where ml: "frameMagnitudes env (envLeft env) (frame * envHopSize env) = Inr ml"
    using frameMagnitudes_Inr[OF assms] by blast
  obtain mr where mr: "frameMagnitudes env (envRight env) (frame * envHopSize env) = Inr mr"
    using frameMagnitudes_Inr[OF assms] by blast
  show ?thesis
    by (cases ml; cases mr) (simp add: stftFrame_def ml mr Let_def)
qed

lemma stftCheckpoints_step:
  "frame < n \<Longrightarrow> stftCheckpoints n frame =
     (if frame AND 31 = 0 \<or> frame = n - 1
      then [(max 0 (min 100 (js_round (20 + (real (frame + 1) / real n) * 50))), ''Running STFT'')]
      else []) @ stftCheckpoints n (Suc frame)"
  by (simp add: stftCheckpoints_def upt_conv_Cons)

lemma stftCheckpoints_end: "n \<le> frame \<Longrightarrow> stftCheckpoints n frame = []"
  by (simp add: stftCheckpoints_def)

lemma stftLoop_returns:
  assumes "isPowerOfTwo (envFftSize env)"
  shows "\<exists>st'. stftLoop env frame st = (None, st')
           \<and> length (spectralFlux st') = length (spectralFlux st)
           \<and> progress st' = progress st @ stftCheckpoints (envNumFrames env) frame"
  using assms
proof (induction env frame st rule: stftLoop.induct)
  case (1 env frame st)
  show ?case
  proof (cases "frame < envNumFrames env")
    case False
    then show ?thesis
      by (subst stftLoop.simps) (simp add: stftCheckpoints_end)
  next
    case True
    obtain st1 where st1: "stftFrame env frame st = (None, st1)"
      and len1: "length (spectralFlux st1) = length (spectralFlux st)"
      and pr1: "progress st1 =
               (if frame AND 31 = 0 \<or> frame = envNumFrames env - 1
                then postProgress (20 + (real (frame + 1) / real (envNumFrames env)) * 50)
                       ''Running STFT'' (progress st)
                else progress st)"
      using stftFrame_returns[OF "1.prems", of frame st] by blast
    obtain st' where st': "stftLoop env (frame + 1) st1 = (None, st')"
      and len': "length (spectralFlux st') = length (spectralFlux st1)"
      and pr': "progress st' = progress st1 @ stftCheckpoints (envNumFrames env) (frame + 1)"
      using "1.IH"[OF True st1[symmetric] refl "1.prems"] by blast
    have "stftLoop env frame st = (None, st')"
      using True st1 st' by (subst stftLoop.simps) simp
    moreover have "progress st' = progress st @ stftCheckpoints (envNumFrames env) frame"
      using pr' pr1 True by (simp add: stftCheckpoints_step[OF True] postProgress_def Let_def)
    ultimately show ?thesis using len' len1 by simp
  qed
qed

lemma js_round_of_int [simp]: "js_round (of_int k) = k"
  by (simp add: js_round_def)

lemma postProgress_numeral [simp]:
  "postProgress (numeral k) s sent = sent @ [(max 0 (min 100 (numeral k)), s)]"
  using js_round_of_int[of "numeral k"] by (simp add: postProgress_def Let_def del: js_round_of_int)

lemma createSpectrogramTiles_Inr:
  assumes "0 \<le> nb"
  shows "\<exists>tiles. createSpectrogramTiles n nb ts = Inr tiles"
  using assms by (simp add: createSpectrogramTiles_def Let_def list_ex_iff not_less)

lemma createSpectrogramTiles_Inl:
  assumes "nb < 0" "0 < n" "0 < ts"
  shows "createSpectrogramTiles n nb ts = Inl InvalidTypedArrayLength"
proof -
  have "0 < (n + ts - 1) div ts" using assms(2,3) by (simp add: div_greater_zero_iff)
  then have "0 \<in> set [0..<max 1 ((n + ts - 1) div ts)]" by simp
  moreover have "int (min ts (n - 0 * ts)) * nb < 0"
    using assms by (simp add: mult_pos_neg)
  ultimately have "list_ex (\<lambda>l. l < 0)
     (map (\<lambda>tile. int (min ts (n - tile * ts)) * nb) [0..<max 1 ((n + ts - 1) div ts)])"
    unfolding list_ex_iff by (metis (no_types, lifting) image_eqI list.set_map)
  then show ?thesis by (simp add: createSpectrogramTiles_def Let_def)
qed

lemma analyseChannels_returns:
  assumes nb: "nb < 2 ^ 32" and bins: "0 \<le> numBinsOf fs" and pw: "isPowerOfTwo (nat fs)"
  shows "\<exists>b. analyseChannels sr fs hs nb ns l r = (successNotifications (nat (numFramesOf ns fs hs)), Inr b)
           \<and> r_fftSize b = fs \<and> r_numSamples b = ns
           \<and> r_numFrames b = numFramesOf ns fs hs \<and> r_hopSize b = hs
           \<and> r_numBands b = nb
           \<and> length (r_spectralFlux b) = nat (numFramesOf ns fs hs)
           \<and> r_onsets b = detectOnsets (r_spectralFlux b) (computeRunningMedian (r_spectralFlux b) 10)"
proof -
  define nf where "nf = numFramesOf ns fs hs"
  define bins where "bins = numBinsOf fs"
  obtain tiles where tiles: "createSpectrogramTiles (nat nf) bins TILE_SIZE = Inr tiles"
    using createSpectrogramTiles_Inr[of bins] assms(2) bins_def by blast
  define env where "env = \<lparr> envLeft = l, envRight = r,
                                   envFftSize = nat fs, envHopSize = nat hs,
                                   envNumFrames = nat nf, envNumBins = nat bins,
                                   envWindow = createHannWindow (nat fs),
                                   envRanges = computeBandBinRanges (computeBandFrequencies (nat nb) sr) sr fs bins \<rparr>"
  define st0 where "st0 = \<lparr> bandsLeft = replicate (nat (nf * nb)) 0,
                                   bandsRight = replicate (nat (nf * nb)) 0,
                                   spectrogramTilesLeft = tiles,
                                   spectrogramTilesRight = tiles,
                                   spectralFlux = replicate (nat nf) 0,
                                   prevMixedMagnitudes = replicate (nat bins) 0,
                                   currMixedMagnitudes = replicate (nat bins) 0,
                                   progress = [(2, ''Initializing precompute''), (10, ''Downsampled waveform LODs''),
      (20, ''Computed RMS envelope''), (21, ''Running STFT'')] \<rparr>"
  have pw: "isPowerOfTwo (envFftSize env)"
    using pw by (simp add: env_def)
  obtain st where st: "stftLoop env 0 st0 = (None, st)"
    and len: "length (spectralFlux st) = length (spectralFlux st0)"
    and pr: "progress st = progress st0 @ stftCheckpoints (envNumFrames env) 0"
    using stftLoop_returns[OF pw, of 0 st0] by blast
  have nb': "\<not> (4294967296 \<le> nb)" using nb by simp
  have len': "length (spectralFlux st) = nat nf" using len by (simp add: st0_def)
  have pr': "progress st = [(2, ''Initializing precompute''), (10, ''Downsampled waveform LODs''),
      (20, ''Computed RMS envelope''), (21, ''Running STFT'')] @ stftCheckpoints (nat nf) 0"
    using pr by (simp add: st0_def env_def)
  have st': "stftLoop \<lparr> envLeft = l, envRight = r,
                                   envFftSize = nat fs, envHopSize = nat hs,
                                   envNumFrames = nat nf, envNumBins = nat bins,
                                   envWindow = createHannWindow (nat fs),
                                   envRanges = computeBandBinRanges (computeBandFrequencies (nat nb) sr) sr fs bins \<rparr> 0
         \<lparr> bandsLeft = replicate (nat (nf * nb)) 0,
                                   bandsRight = replicate (nat (nf * nb)) 0,
                                   spectrogramTilesLeft = tiles,
                                   spectrogramTilesRight = tiles,
                                   spectralFlux = replicate (nat nf) 0,
                                   prevMixedMagnitudes = replicate (nat bins) 0,
                                   currMixedMagnitudes = replicate (nat bins) 0,
                                   progress = [(2, ''Initializing precompute''), (10, ''Downsampled waveform LODs''),
      (20, ''Computed RMS envelope''), (21, ''Running STFT'')] \<rparr> = (None, st)"
    using st by (simp add: env_def st0_def)
  show ?thesis
    unfolding analyseChannels_def nf_def[symmetric] bins_def[symmetric] Let_def
    by (simp add: nb' tiles st' len' pr' successNotifications_def)
qed

lemma numBinsOf_eq: "0 \<le> fs \<Longrightarrow> fs < 2 ^ 31 \<Longrightarrow> numBinsOf fs = fs div 2"
  unfolding numBinsOf_def by (rule numBins_eq)

lemma effFftSize_isPowerOfTwo: "isPowerOfTwo (nat (effFftSize p))"
  by (simp add: effFftSize_def sanitize_isPowerOfTwo)

lemma effFftSize_ge2: "2 \<le> effFftSize p"
  by (simp add: effFftSize_def sanitize_ge2)

lemma precomputeChannels_returns:
  assumes ns: "1 \<le> effNumSamples p (length l) (length r)"
    and nb: "effNumBands p < 2 ^ 32" and fs: "effFftSize p < 2 ^ 31"
  shows "\<exists>b. precomputeChannels p l r =
               (successNotifications (nat (numFramesOf (effNumSamples p (length l) (length r))
                                             (effFftSize p) (effHopSize p))), Inr b)
           \<and> r_fftSize b = effFftSize p
           \<and> r_numSamples b = effNumSamples p (length l) (length r)
           \<and> r_numFrames b = numFramesOf (effNumSamples p (length l) (length r)) (effFftSize p) (effHopSize p)"
proof -
  have bins: "0 \<le> numBinsOf (effFftSize p)"
    using effFftSize_ge2[of p] fs by (simp add: numBinsOf_eq)
  have ns': "\<not> effNumSamples p (length l) (length r) < 1" using ns by simp
  obtain b where "analyseChannels (effSampleRate p) (effFftSize p) (effHopSize p) (effNumBands p)
       (effNumSamples p (length l) (length r))
       (if int (length l) \<noteq> effNumSamples p (length l) (length r)
        then take (nat (effNumSamples p (length l) (length r))) l else l)
       (if int (length r) \<noteq> effNumSamples p (length l) (length r)
        then take (nat (effNumSamples p (length l) (length r))) r else r)
     = (successNotifications (nat (numFramesOf (effNumSamples p (length l) (length r))
                                             (effFftSize p) (effHopSize p))), Inr b)"
    and "r_fftSize b = effFftSize p"
    and "r_numSamples b = effNumSamples p (length l) (length r)"
    and "r_numFrames b = numFramesOf (effNumSamples p (length l) (length r)) (effFftSize p) (effHopSize p)"
    using analyseChannels_returns[OF nb bins effFftSize_isPowerOfTwo] by blast
  then show ?thesis
    unfolding precomputeChannels_def Let_def using ns' by (intro exI[of _ b]) simp
qed

lemma precomputeChannels_NoSamples:
  "effNumSamples p (length l) (length r) < 1 \<Longrightarrow> precomputeChannels p l r = ([], Inl NoSamples)"
  by (simp add: precomputeChannels_def Let_def)

lemma effNumSamples_bounds:
  "effNumSamples p m n \<le> min (int m) (int n)"
  "1 \<le> min m n \<Longrightarrow> 1 \<le> effNumSamples p m n"
  "min m n = 0 \<Longrightarrow> effNumSamples p m n < 1"
  by (auto simp add: effNumSamples_def Let_def split: option.splits)

lemma effNumSamples_le_min: "effNumSamples p m n \<le> int (min m n)"
  by (auto simp add: effNumSamples_def Let_def min_def split: option.splits)

lemma stftFrame_length:
  "stftFrame env frame st = (None, st') \<Longrightarrow> length (spectralFlux st') = length (spectralFlux st)"
  by (auto simp add: stftFrame_def Let_def split: sum.splits prod.splits if_splits)

lemma stftLoop_length:
  "stftLoop env frame st = (None, st') \<Longrightarrow> length (spectralFlux st') = length (spectralFlux st)"
proof (induction env frame st rule: stftLoop.induct)
  case (1 env frame st)
  show ?case
  proof (cases "frame < envNumFrames env")
    case False
    with "1.prems" show ?thesis by (subst (asm) stftLoop.simps) simp
  next
    case True
    from "1.prems" True obtain st1 where st1: "stftFrame env frame st = (None, st1)"
      and l: "stftLoop env (frame + 1) st1 = (None, st')"
      by (subst (asm) stftLoop.simps) (auto split: prod.splits option.splits)
    from "1.IH"[OF True st1[symmetric] refl l] stftFrame_length[OF st1] show ?thesis by simp
  qed
qed

lemma stftFrame_flux:
  assumes "stftFrame env frame st = (None, st')"
  shows "(spectralFlux st', prevMixedMagnitudes st')
           = fluxStep env frame (spectralFlux st, prevMixedMagnitudes st)"
  using assms
  by (auto simp add: stftFrame_def mixedOf_def fluxStep_def Let_def
        split: sum.splits prod.splits if_splits)

lemma stftLoop_flux:
  "stftLoop env frame st = (None, st') \<Longrightarrow>
     (spectralFlux st', prevMixedMagnitudes st')
       = fold (fluxStep env) [frame..<envNumFrames env] (spectralFlux st, prevMixedMagnitudes st)"
proof (induction env frame st rule: stftLoop.induct)
  case (1 env frame st)
  show ?case
  proof (cases "frame < envNumFrames env")
    case False
    with "1.prems" show ?thesis by (subst (asm) stftLoop.simps) simp
  next
    case True
    from "1.prems" True obtain st1 where st1: "stftFrame env frame st = (None, st1)"
      and l: "stftLoop env (frame + 1) st1 = (None, st')"
      by (subst (asm) stftLoop.simps) (auto split: prod.splits option.splits)
    have "(spectralFlux st', prevMixedMagnitudes st')
            = fold (fluxStep env) [frame + 1..<envNumFrames env]
                (spectralFlux st1, prevMixedMagnitudes st1)"
      by (rule "1.IH"[OF True st1[symmetric] refl l])
    also have "(spectralFlux st1, prevMixedMagnitudes st1)
            = fluxStep env frame (spectralFlux st, prevMixedMagnitudes st)"
      by (rule stftFrame_flux[OF st1])
    finally show ?thesis using True by (simp add: upt_conv_Cons)
  qed
qed

lemma analyseChannels_onsets:
  assumes "analyseChannels sr fs hs nb ns l r = (sent, Inr b)"
  shows "r_onsets b = detectOnsets (r_spectralFlux b) (computeRunningMedian (r_spectralFlux b) 10)
       \<and> int (length (r_spectralFlux b)) = r_numFrames b"
proof -
  have nf: "1 \<le> numFramesOf ns fs hs" by (simp add: numFramesOf_def)
  from assms show ?thesis
    unfolding analyseChannels_def Let_def
    using nf by (auto split: if_splits sum.splits prod.splits option.splits dest!: stftLoop_length)
qed

lemma analyseChannels_flux:
  assumes "analyseChannels sr fs hs nb ns l r = (sent, Inr b)"
  shows "r_spectralFlux b =
           fst (fold (fluxStep \<lparr> envLeft = l, envRight = r,
                              envFftSize = nat fs, envHopSize = nat hs,
                              envNumFrames = nat (numFramesOf ns fs hs),
                              envNumBins = nat (numBinsOf fs),
                              envWindow = createHannWindow (nat fs),
                              envRanges = computeBandBinRanges (computeBandFrequencies (nat nb) sr)
                                            sr fs (numBinsOf fs) \<rparr>)
                  [0..<nat (numFramesOf ns fs hs)]
                  (replicate (nat (numFramesOf ns fs hs)) 0, replicate (nat (numBinsOf fs)) 0))"
proof -
  define env where "env = \<lparr> envLeft = l, envRight = r,
                              envFftSize = nat fs, envHopSize = nat hs,
                              envNumFrames = nat (numFramesOf ns fs hs),
                              envNumBins = nat (numBinsOf fs),
                              envWindow = createHannWindow (nat fs),
                              envRanges = computeBandBinRanges (computeBandFrequencies (nat nb) sr)
                                            sr fs (numBinsOf fs) \<rparr>"
  from assms obtain st0 st where l: "stftLoop env 0 st0 = (None, st)"
    and b: "r_spectralFlux b = spectralFlux st"
    and s0: "spectralFlux st0 = replicate (nat (numFramesOf ns fs hs)) 0"
    and p0: "prevMixedMagnitudes st0 = replicate (nat (numBinsOf fs)) 0"
    unfolding analyseChannels_def Let_def env_def[symmetric]
    by (auto split: if_splits sum.splits prod.splits option.splits)
  have "spectralFlux st = fst (spectralFlux st, prevMixedMagnitudes st)" by simp
  also have "\<dots> = fst (fold (fluxStep env) [0..<envNumFrames env]
                         (spectralFlux st0, prevMixedMagnitudes st0))"
    by (simp only: stftLoop_flux[OF l])
  finally show ?thesis
    unfolding b s0 p0 env_def by simp
qed

lemma runPrecompute_Inr_cases:
  assumes "runPrecompute p = (sent, Inr b)"
  obtains l r ns l1 r1 where "analyseChannels (effSampleRate p) (effFftSize p) (effHopSize p) (effNumBands p) ns l1 r1 = (sent, Inr b)"
  using assms unfolding runPrecompute_def precomputeChannels_def Let_def
  by (auto split: sum.splits if_splits)

section \<open>Runs of the pipeline\<close>

lemma runPrecompute_returns:
  assumes "toFloat32Array (left p) ''left'' = Inr l"
    and "if right p = Missing then r = l else toFloat32Array (right p) ''right'' = Inr r"
    and "l \<noteq> []" "r \<noteq> []" "effNumBands p < 2 ^ 32" "effFftSize p < 2 ^ 31"
  shows "\<exists>b. runPrecompute p =
               (successNotifications (nat (numFramesOf (effNumSamples p (length l) (length r))
                                             (effFftSize p) (effHopSize p))), Inr b)
           \<and> r_fftSize b = effFftSize p
           \<and> r_numSamples b = effNumSamples p (length l) (length r)
           \<and> r_numFrames b = numFramesOf (effNumSamples p (length l) (length r)) (effFftSize p) (effHopSize p)"
proof -
  have "1 \<le> min (length l) (length r)" using assms(3,4) by (cases l; cases r) simp_all
  then have ns: "1 \<le> effNumSamples p (length l) (length r)" by (rule effNumSamples_bounds(2))
  have "runPrecompute p = precomputeChannels p l r"
    using assms(1,2) by (simp add: runPrecompute_def split: if_splits)
  then show ?thesis
    using precomputeChannels_returns[OF ns assms(5,6)] by simp
qed

lemma runPrecompute_NoSamples:
  assumes "toFloat32Array (left p) ''left'' = Inr l"
    and "if right p = Missing then r = l else toFloat32Array (right p) ''right'' = Inr r"
    and "l = [] \<or> r = []"
  shows "runPrecompute p = ([], Inl NoSamples)"
proof -
  have "min (length l) (length r) = 0" using assms(3) by auto
  then have ns: "effNumSamples p (length l) (length r) < 1" by (rule effNumSamples_bounds(3))
  have "runPrecompute p = precomputeChannels p l r"
    using assms(1,2) by (simp add: runPrecompute_def split: if_splits)
  then show ?thesis using precomputeChannels_NoSamples[OF ns] by simp
qed

lemma payload_fft3_returns:
  "\<exists>b. runPrecompute payload_fft3 = (successNotifications 1, Inr b) \<and> r_fftSize b = 2048"
proof -
  have fs: "effFftSize payload_fft3 = 2048"
    by (simp add: payload_fft3_def effFftSize_def sanitizePowerOfTwo_def isInteger_def
          DEFAULT_FFT_SIZE_def)
  have nf: "numFramesOf (effNumSamples payload_fft3 (length [0::real]) (length [0::real]))
              (effFftSize payload_fft3) (effHopSize payload_fft3) = 1"
    unfolding fs
    by (simp add: numFramesOf_def effNumSamples_def effHopSize_def payload_fft3_def
          numberOr_def DEFAULT_HOP_SIZE_def)
  have "\<exists>b. runPrecompute payload_fft3 =
               (successNotifications (nat (numFramesOf
                   (effNumSamples payload_fft3 (length [0::real]) (length [0::real]))
                   (effFftSize payload_fft3) (effHopSize payload_fft3))), Inr b)
           \<and> r_fftSize b = effFftSize payload_fft3
           \<and> r_numSamples b = effNumSamples payload_fft3 (length [0::real]) (length [0::real])
           \<and> r_numFrames b = numFramesOf
                   (effNumSamples payload_fft3 (length [0::real]) (length [0::real]))
                   (effFftSize payload_fft3) (effHopSize payload_fft3)"
    by (rule runPrecompute_returns)
       (simp_all add: fs, simp_all add: payload_fft3_def toFloat32Array_def effNumBands_def
          numberOr_def DEFAULT_NUM_BANDS_def)
  then obtain b where run: "runPrecompute payload_fft3 =
               (successNotifications (nat (numFramesOf
                   (effNumSamples payload_fft3 (length [0::real]) (length [0::real]))
                   (effFftSize payload_fft3) (effHopSize payload_fft3))), Inr b)"
    and f: "r_fftSize b = effFftSize payload_fft3"
    by blast
  from run have "runPrecompute payload_fft3 = (successNotifications (nat 1), Inr b)"
    by (simp only: nf)
  with f fs show ?thesis
    by simp
qed

subsection \<open>Onsets of the bundle\<close>

text \<open>
  Claim C8: whenever \<^verbatim>\<open>runPrecompute\<close> returns a bundle, its onset indices are strictly
  increasing and each of them is below \<open>numFrames\<close>.
\<close>

theorem bundle_onsets_increasing:
  assumes "runPrecompute p = (sent, Inr b)"
  shows "sorted_wrt (<) (r_onsets b) \<and> (\<forall>i \<in> set (r_onsets b). int i < r_numFrames b)"
proof -
  obtain ns l1 r1 where "analyseChannels (effSampleRate p) (effFftSize p) (effHopSize p) (effNumBands p) ns l1 r1 = (sent, Inr b)"
    using assms by (rule runPrecompute_Inr_cases)
  then have o: "r_onsets b = detectOnsets (r_spectralFlux b) (computeRunningMedian (r_spectralFlux b) 10)"
    and n: "int (length (r_spectralFlux b)) = r_numFrames b"
    using analyseChannels_onsets by blast+
  show ?thesis
    unfolding o using detectOnsets_sorted n by (auto simp add: detectOnsets_set)
qed

subsection \<open>An invalid \<open>fftSize\<close>\<close>

lemma sanitize_fallback:
  assumes "v = None \<or> (\<exists>x. v = Some x \<and> (\<not> isInteger x \<or> x < 2 \<or> (x < 2 ^ 31 \<and> (\<forall>j. x \<noteq> 2 ^ j))))"
  shows "sanitizePowerOfTwo v fb = fb"
proof (cases v)
  case None
  then show ?thesis by (simp add: sanitizePowerOfTwo_def)
next
  case (Some x)
  show ?thesis
  proof (cases "\<not> isInteger x \<or> x < 2")
    case True
    then show ?thesis using Some by (auto simp add: sanitizePowerOfTwo_def)
  next
    case False
    then have int: "of_int \<lfloor>x\<rfloor> = x" and x2: "2 \<le> x" by (simp_all add: isInteger_def)
    from False assms Some have lt: "x < 2 ^ 31" and np: "\<forall>j. x \<noteq> 2 ^ j" by auto
    have k: "2 \<le> \<lfloor>x\<rfloor>" using x2 by linarith
    have klt: "\<lfloor>x\<rfloor> < 2 ^ 31" using lt by (simp add: floor_less_iff)
    have a: "(word_of_int \<lfloor>x\<rfloor> :: 32 word) = word_of_nat (nat \<lfloor>x\<rfloor>)"
      using k by (intro word_of_int_nat) simp
    have b: "(word_of_int (\<lfloor>x\<rfloor> - 1) :: 32 word) = word_of_nat (nat \<lfloor>x\<rfloor> - 1)"
      using k word_of_int_nat[of "\<lfloor>x\<rfloor> - 1"] by (simp add: nat_diff_distrib)
    have "(word_of_int \<lfloor>x\<rfloor> AND word_of_int (\<lfloor>x\<rfloor> - 1) :: 32 word) \<noteq> 0"
    proof
      assume z: "(word_of_int \<lfloor>x\<rfloor> AND word_of_int (\<lfloor>x\<rfloor> - 1) :: 32 word) = 0"
      have "1 < nat \<lfloor>x\<rfloor>" using k by simp
      then have "isPowerOfTwo (nat \<lfloor>x\<rfloor>)"
        using z unfolding isPowerOfTwo_def a b by blast
      moreover have "nat \<lfloor>x\<rfloor> < 2 ^ 32" using klt k by (simp add: nat_less_iff)
      ultimately obtain j where "nat \<lfloor>x\<rfloor> = 2 ^ j" using isPowerOfTwo_imp_pow2 by blast
      then have "\<lfloor>x\<rfloor> = 2 ^ j" using k by (metis int_nat_eq of_nat_numeral of_nat_power order.trans zero_le_numeral)
      then have "x = 2 ^ j" using int by (metis of_int_numeral of_int_power)
      with np show False by blast
    qed
    then show ?thesis using Some False by (simp add: sanitizePowerOfTwo_def)
  qed
qed

lemma precomputeChannels_cong:
  assumes "effSampleRate q = effSampleRate p"
    "effFftSize q = effFftSize p" "effHopSize q = effHopSize p" "effNumBands q = effNumBands p"
    "numSamples q = numSamples p"
  shows "precomputeChannels q l r = precomputeChannels p l r"
  unfolding precomputeChannels_def effNumSamples_def assms ..

lemma runPrecompute_cong:
  assumes "left q = left p" "right q = right p" "effSampleRate q = effSampleRate p"
    "effFftSize q = effFftSize p" "effHopSize q = effHopSize p" "effNumBands q = effNumBands p"
    "numSamples q = numSamples p"
  shows "runPrecompute q = runPrecompute p"
  unfolding runPrecompute_def assms(1,2) precomputeChannels_cong[OF assms(3-7)] ..

lemma three_not_power_of_two: "(3 :: real) \<noteq> 2 ^ j"
proof
  assume "(3 :: real) = 2 ^ j"
  then have "real_of_int 3 = real_of_int (2 ^ j)" by simp
  then have e: "(3 :: int) = 2 ^ j" by (simp only: of_int_eq_iff)
  show False
  proof (cases j)
    case 0
    with e show False by simp
  next
    case (Suc k)
    have "even (3 :: int)"
      unfolding e using Suc by simp
    then show False by simp
  qed
qed

text \<open>
  Claim C1, as the code has it: when the \<open>fftSize\<close> field is missing or not a number, is
  not an integer, is below 2, or is an integer below \<open>2^31\<close> that is no power of two, the
  run does not fail on that account: \<^verbatim>\<open>sanitizePowerOfTwo\<close> replaces it by the default
  2048 and the run is the run of the same payload with \<open>fftSize = 2048\<close>.
\<close>

theorem invalid_fftSize_falls_back:
  assumes "fftSize p = None \<or>
           (\<exists>x. fftSize p = Some x \<and> (\<not> isInteger x \<or> x < 2 \<or> (x < 2 ^ 31 \<and> (\<forall>j. x \<noteq> 2 ^ j))))"
  shows "sanitizePowerOfTwo (fftSize p) DEFAULT_FFT_SIZE = 2048
       \<and> runPrecompute p = runPrecompute (p \<lparr> fftSize := Some 2048 \<rparr>)"
proof -
  have a: "sanitizePowerOfTwo (fftSize p) DEFAULT_FFT_SIZE = 2048"
    using sanitize_fallback[OF assms] by (simp add: DEFAULT_FFT_SIZE_def)
  have b: "sanitizePowerOfTwo (Some 2048) DEFAULT_FFT_SIZE = 2048"
    by (simp add: sanitizePowerOfTwo_def isInteger_def)
  have "runPrecompute (p \<lparr> fftSize := Some 2048 \<rparr>) = runPrecompute p"
    by (rule runPrecompute_cong) (simp_all add: effSampleRate_def effFftSize_def effHopSize_def effNumBands_def a b)
  with a show ?thesis by simp
qed

theorem invalid_fftSize_falls_back_witness:
  "runPrecompute payload_fft3 = runPrecompute (payload_fft3 \<lparr> fftSize := Some 2048 \<rparr>)"
proof -
  have "fftSize payload_fft3 = Some 3 \<and> (3 :: real) < 2 ^ 31 \<and> (\<forall>j. (3 :: real) \<noteq> 2 ^ j)"
    using three_not_power_of_two by (simp add: payload_fft3_def)
  then have h: "fftSize payload_fft3 = None \<or>
      (\<exists>x. fftSize payload_fft3 = Some x
           \<and> (\<not> isInteger x \<or> x < 2 \<or> (x < 2 ^ 31 \<and> (\<forall>j. x \<noteq> 2 ^ j))))"
    by blast
  from invalid_fftSize_falls_back [OF h] show ?thesis
    by blast
qed

text \<open>
  Claim C1 as stated fails: for a payload with one sample and \<open>fftSize = 3\<close> the run does
  not end in an error.
\<close>

theorem fftSize_three_runs:
  "fftSize payload_fft3 = Some 3 \<and> \<not> failed (runPrecompute payload_fft3)"
  using payload_fft3_returns by (auto simp add: failed_def payload_fft3_def)

subsection \<open>Channels of different lengths\<close>

lemma effNumSamples_take:
  "effNumSamples p (length (take (min (length l) (length r)) l)) (length (take (min (length l) (length r)) r))
     = effNumSamples p (length l) (length r)"
  by (simp add: effNumSamples_def)

lemma precomputeChannels_take:
  "precomputeChannels p (take (min (length l) (length r)) l) (take (min (length l) (length r)) r)
     = precomputeChannels p l r"
proof -
  define n where "n = min (length l) (length r)"
  define ns where "ns = effNumSamples p (length l) (length r)"
  have le: "ns \<le> int n" unfolding ns_def n_def by (rule effNumSamples_le_min)
  have e: "effNumSamples p (length (take n l)) (length (take n r)) = ns"
    unfolding n_def ns_def by (rule effNumSamples_take)
  have tl: "(if int (length (take n l)) \<noteq> ns then take (nat ns) (take n l) else take n l)
          = (if int (length l) \<noteq> ns then take (nat ns) l else l)"
    using le by (auto simp add: n_def min_def split: if_splits)
  have tr: "(if int (length (take n r)) \<noteq> ns then take (nat ns) (take n r) else take n r)
          = (if int (length r) \<noteq> ns then take (nat ns) r else r)"
    using le by (auto simp add: n_def min_def split: if_splits)
  show ?thesis
    unfolding precomputeChannels_def Let_def n_def[symmetric] e ns_def[symmetric] tl tr ..
qed

text \<open>
  Claim C2, as the code has it: when both channels are arrays, of lengths whose minimum is
  \<open>n\<close>, the run is the run on both channels cut to their first \<open>n\<close> samples. It ends with
  the error for an empty signal when \<open>n = 0\<close>; when \<open>n \<ge> 1\<close> (and \<open>numBands\<close> is below
  \<open>2^32\<close> and the sanitised \<open>fftSize\<close> below \<open>2^30\<close>) it returns a bundle whose
  \<open>numSamples\<close> is at least 1 and at most \<open>n\<close>.
\<close>

theorem uneven_channels_truncated:
  assumes "toFloat32Array (left p) ''left'' = Inr l"
    and "right p \<noteq> Missing" and "toFloat32Array (right p) ''right'' = Inr r"
    and "n = min (length l) (length r)"
  shows "runPrecompute p
           = runPrecompute (p \<lparr> left := Float32Array (take n l), right := Float32Array (take n r) \<rparr>)
       \<and> (n = 0 \<longrightarrow> runPrecompute p = ([], Inl NoSamples))
       \<and> (1 \<le> n \<and> effNumBands p < 2 ^ 32 \<and> effFftSize p < 2 ^ 30 \<longrightarrow>
            (\<exists>b. snd (runPrecompute p) = Inr b
                  \<and> r_numSamples b = effNumSamples p (length l) (length r)
                  \<and> 1 \<le> r_numSamples b \<and> r_numSamples b \<le> int n))"
proof -
  let ?q = "p \<lparr> left := Float32Array (take n l), right := Float32Array (take n r) \<rparr>"
  have "runPrecompute ?q = precomputeChannels ?q (take n l) (take n r)"
    by (simp add: runPrecompute_def toFloat32Array_def)
  also have "\<dots> = precomputeChannels p (take n l) (take n r)"
    by (rule precomputeChannels_cong)
       (simp_all add: effSampleRate_def effFftSize_def effHopSize_def effNumBands_def)
  also have "\<dots> = precomputeChannels p l r"
    unfolding assms(4) by (rule precomputeChannels_take)
  also have "\<dots> = runPrecompute p"
    using assms(1,2,3) by (simp add: runPrecompute_def)
  finally have a: "runPrecompute p = runPrecompute ?q" by simp
  have r: "if right p = Missing then r = l else toFloat32Array (right p) ''right'' = Inr r"
    using assms(2,3) by simp
  have b: "n = 0 \<longrightarrow> runPrecompute p = ([], Inl NoSamples)"
    using runPrecompute_NoSamples[OF assms(1) r] assms(4) by (auto simp add: min_def split: if_splits)
  have c: "\<exists>b. snd (runPrecompute p) = Inr b
                  \<and> r_numSamples b = effNumSamples p (length l) (length r)
                  \<and> 1 \<le> r_numSamples b \<and> r_numSamples b \<le> int n"
    if h: "1 \<le> n" "effNumBands p < 2 ^ 32" "effFftSize p < 2 ^ 30"
  proof -
    have ne: "l \<noteq> []" "r \<noteq> []" using h(1) assms(4) by auto
    have fs: "effFftSize p < 2 ^ 31" using h(3) by simp
    obtain b where "runPrecompute p =
               (successNotifications (nat (numFramesOf (effNumSamples p (length l) (length r))
                                             (effFftSize p) (effHopSize p))), Inr b)"
      and "r_numSamples b = effNumSamples p (length l) (length r)"
      using runPrecompute_returns[OF assms(1) r ne h(2) fs] by blast
    moreover have "effNumSamples p (length l) (length r) \<le> int n"
      unfolding assms(4) by (rule effNumSamples_le_min)
    moreover have "1 \<le> effNumSamples p (length l) (length r)"
      using effNumSamples_bounds(2)[of "length l" "length r" p] h(1) assms(4) by simp
    ultimately show ?thesis by auto
  qed
  from a b c show ?thesis by blast
qed

theorem uneven_channels_truncated_witness:
  "runPrecompute payload_uneven
     = runPrecompute (payload_uneven \<lparr> left := Float32Array [0], right := Float32Array [0] \<rparr>)"
  using uneven_channels_truncated [of payload_uneven "[0, 0]" "[0]" 1]
  by (simp add: payload_uneven_def toFloat32Array_def)

text \<open>
  Claim C2 as stated fails: a left channel of two samples with a right channel of one
  sample is analysed, the run does not end in an error.
\<close>

theorem uneven_channels_run:
  "\<not> failed (runPrecompute payload_uneven)"
proof -
  have "\<exists>b. runPrecompute payload_uneven =
               (successNotifications (nat (numFramesOf (effNumSamples payload_uneven (length [0, 0::real]) (length [0::real]))
                                             (effFftSize payload_uneven) (effHopSize payload_uneven))), Inr b)
           \<and> r_fftSize b = effFftSize payload_uneven
           \<and> r_numSamples b = effNumSamples payload_uneven (length [0, 0::real]) (length [0::real])
           \<and> r_numFrames b = numFramesOf (effNumSamples payload_uneven (length [0, 0::real]) (length [0::real])) (effFftSize payload_uneven) (effHopSize payload_uneven)"
    by (rule runPrecompute_returns)
       (simp_all add: payload_uneven_def toFloat32Array_def effNumBands_def effFftSize_def
          numberOr_def sanitizePowerOfTwo_def DEFAULT_NUM_BANDS_def DEFAULT_FFT_SIZE_def)
  then show ?thesis by (auto simp add: failed_def)
qed

subsection \<open>A missing right channel\<close>




subsection \<open>Progress notifications\<close>

lemma three_seconds_frames:
  "numFramesOf (effNumSamples payload_three_seconds 132300 132300) (effFftSize payload_three_seconds)
      (effHopSize payload_three_seconds) = 255"
  by (simp add: numFramesOf_def effNumSamples_def effFftSize_def effHopSize_def payload_three_seconds_def
        numberOr_def sanitizePowerOfTwo_def isInteger_def)

lemma checkpoints_255:
  "map fst (stftCheckpoints 255 0) = [20, 26, 33, 39, 45, 52, 58, 64, 70]"
  by code_simp

text \<open>
  Claim C3 fails on the code: for three seconds of audio at 44100 Hz with the default
  configuration (255 frames) the notification \<open>21\<close> sent before the loop over the frames
  is followed by \<open>20\<close>, the first notification of the loop.
\<close>

theorem progress_three_seconds:
  "percents (runPrecompute payload_three_seconds)
     = [2, 10, 20, 21, 20, 26, 33, 39, 45, 52, 58, 64, 70, 75, 80, 85, 95, 100]"
proof -
  have "\<exists>b. runPrecompute payload_three_seconds =
               (successNotifications (nat (numFramesOf (effNumSamples payload_three_seconds (length (replicate 132300 (0::real))) (length (replicate 132300 (0::real))))
                                             (effFftSize payload_three_seconds) (effHopSize payload_three_seconds))), Inr b)
           \<and> r_fftSize b = effFftSize payload_three_seconds
           \<and> r_numSamples b = effNumSamples payload_three_seconds (length (replicate 132300 (0::real))) (length (replicate 132300 (0::real)))
           \<and> r_numFrames b = numFramesOf (effNumSamples payload_three_seconds (length (replicate 132300 (0::real))) (length (replicate 132300 (0::real)))) (effFftSize payload_three_seconds) (effHopSize payload_three_seconds)"
    by (rule runPrecompute_returns)
       (simp_all add: payload_three_seconds_def toFloat32Array_def effNumBands_def effFftSize_def numberOr_def
        sanitizePowerOfTwo_def isInteger_def)
  then obtain b where "runPrecompute payload_three_seconds = (successNotifications 255, Inr b)"
    using three_seconds_frames by auto
  then show ?thesis
    by (simp add: percents_def successNotifications_def checkpoints_255)
qed

section \<open>Transform engine: the round trip\<close>

lemma bitrev_less: "bitrev m i < 2 ^ m"
proof (induction m arbitrary: i)
  case 0
  show ?case by simp
next
  case (Suc m)
  have "i mod 2 = 0 \<or> i mod 2 = 1" by auto
  with Suc[of "i div 2"] show ?case by auto
qed

lemma not_bit_less: "r < 2 ^ k \<Longrightarrow> \<not> bit (r :: nat) k"
  by (simp add: bit_iff_odd)

lemma and_pow2_zero: "r < 2 ^ k \<Longrightarrow> (r :: nat) AND 2 ^ k = 0"
  by (simp add: and_exp_eq_0_iff_not_bit not_bit_less)

lemma xor_pow2_add: "r < 2 ^ k \<Longrightarrow> (r :: nat) XOR 2 ^ k = r + 2 ^ k"
proof -
  assume r: "r < 2 ^ k"
  have "r XOR 2 ^ k = flip_bit k r" by (simp add: flip_bit_eq_xor)
  also have "\<dots> = set_bit k r" using not_bit_less[OF r] by (simp add: flip_bit_eq_if)
  also have "\<dots> = r + 2 ^ k" using not_bit_less[OF r] by (simp add: set_bit_eq)
  finally show ?thesis .
qed

lemma xor_pow2_sub: "r < 2 ^ k \<Longrightarrow> (2 ^ k + r :: nat) XOR 2 ^ k = r"
proof -
  assume r: "r < 2 ^ k"
  have "(2 ^ k + r) XOR 2 ^ k = (r XOR 2 ^ k) XOR 2 ^ k"
    using xor_pow2_add[OF r] by (simp add: add.commute)
  also have "\<dots> = r" by (simp add: xor.assoc)
  finally show ?thesis .
qed

lemma and_pow2_nonzero: "r < 2 ^ k \<Longrightarrow> (2 ^ k + r :: nat) AND 2 ^ k \<noteq> 0"
proof -
  assume r: "r < 2 ^ k"
  have "bit (2 ^ k + r) k" using r by (simp add: bit_iff_odd)
  then show ?thesis by (simp add: and_exp_eq_0_iff_not_bit)
qed

lemma reverseIncrement_bitrev:
  "i + 1 < 2 ^ m \<Longrightarrow> reverseIncrement (bitrev m i) (drop_bit 1 (2 ^ m)) = bitrev m (i + 1)"
proof (induction m arbitrary: i)
  case 0
  then show ?case by simp
next
  case (Suc m)
  have d: "drop_bit 1 ((2::nat) ^ Suc m) = 2 ^ m" by (simp add: drop_bit_eq_div)
  have r: "bitrev m (i div 2) < 2 ^ m" by (rule bitrev_less)
  show ?case
  proof (cases "even i")
    case True
    then have i0: "i mod 2 = 0" and i1: "(i + 1) mod 2 = 1" and idiv: "(i + 1) div 2 = i div 2"
      by (auto simp add: mod_2_eq_odd elim!: evenE)
    have "reverseIncrement (bitrev (Suc m) i) (2 ^ m) = bitrev m (i div 2) XOR 2 ^ m"
      using i0 and_pow2_zero[OF r] by (subst reverseIncrement.simps) simp
    also have "\<dots> = bitrev m (i div 2) + 2 ^ m" by (rule xor_pow2_add[OF r])
    also have "\<dots> = bitrev (Suc m) (i + 1)" using i1 idiv by simp
    finally show ?thesis unfolding d .
  next
    case False
    then have i0: "i mod 2 = 1" and i1: "(i + 1) mod 2 = 0" and idiv: "(i + 1) div 2 = i div 2 + 1"
      by (auto simp add: mod_2_eq_odd elim!: oddE)
    have lt: "i div 2 + 1 < 2 ^ m" using Suc.prems False by (auto elim!: oddE)
    then have m0: "0 < m" by (cases m) simp_all
    have dd: "drop_bit 1 ((2::nat) ^ m) = drop_bit 1 (2 ^ m)" ..
    have "reverseIncrement (bitrev (Suc m) i) (2 ^ m)
            = reverseIncrement ((2 ^ m + bitrev m (i div 2)) XOR 2 ^ m) (drop_bit 1 (2 ^ m))"
      using i0 and_pow2_nonzero[OF r] by (subst reverseIncrement.simps) simp
    also have "\<dots> = reverseIncrement (bitrev m (i div 2)) (drop_bit 1 (2 ^ m))"
      by (simp only: xor_pow2_sub[OF r])
    also have "\<dots> = bitrev m (i div 2 + 1)" by (rule Suc.IH[OF lt])
    also have "\<dots> = bitrev (Suc m) (i + 1)" using i1 idiv by simp
    finally show ?thesis unfolding d .
  qed
qed

lemma bit_bitrev: "bit (bitrev m i) k \<longleftrightarrow> k < m \<and> bit i (m - 1 - k)"
proof (induction m arbitrary: i k)
  case 0
  show ?case by simp
next
  case (Suc m)
  have r: "bitrev m (i div 2) < 2 ^ m" by (rule bitrev_less)
  have nb: "\<not> bit (bitrev m (i div 2)) m" by (rule not_bit_less[OF r])
  have ih: "bit (bitrev m (i div 2)) k \<longleftrightarrow> k < m \<and> bit i (Suc (m - 1 - k))"
    by (simp add: Suc.IH bit_Suc)
  show ?case
  proof (cases "even i")
    case True
    then have "bitrev (Suc m) i = bitrev m (i div 2)" by (simp add: mod_2_eq_odd)
    moreover have "\<not> bit i 0" using True by (simp add: bit_0)
    ultimately show ?thesis
      using ih by (cases "k = m") (auto simp add: Suc_diff_Suc less_Suc_eq)
  next
    case False
    then have "bitrev (Suc m) i = set_bit m (bitrev m (i div 2))"
      using nb by (simp add: mod_2_eq_odd set_bit_eq)
    moreover have "bit i 0" using False by (simp add: bit_0)
    ultimately show ?thesis
      using ih nb by (cases "k = m") (auto simp add: bit_set_bit_iff Suc_diff_Suc less_Suc_eq)
  qed
qed

lemma bit_less_pow2: "i < 2 ^ m \<Longrightarrow> bit (i :: nat) k \<Longrightarrow> k < m"
proof (rule ccontr)
  assume i: "i < 2 ^ m" and b: "bit i k" and "\<not> k < m"
  then have "(2::nat) ^ m \<le> 2 ^ k" by (intro power_increasing) simp_all
  with i have "i < 2 ^ k" by (rule less_le_trans)
  with b show False using not_bit_less by blast
qed

lemma bitrev_involution: "i < 2 ^ m \<Longrightarrow> bitrev m (bitrev m i) = i"
proof (rule bit_eqI)
  fix k
  assume i: "i < 2 ^ m"
  show "bit (bitrev m (bitrev m i)) k \<longleftrightarrow> bit i k"
  proof (cases "k < m")
    case True
    then have "m - 1 - (m - 1 - k) = k" by simp
    with True show ?thesis by (simp add: bit_bitrev)
  next
    case False
    with bit_less_pow2[OF i] show ?thesis by (auto simp add: bit_bitrev)
  qed
qed

lemma bitrev_zero [simp]: "bitrev m 0 = 0"
  by (induction m) simp_all

lemma length_swap [simp]: "length (swap i j xs) = length xs"
  by (simp add: swap_def Let_def)

lemma nth_swap:
  "i < length xs \<Longrightarrow> j < length xs \<Longrightarrow> k < length xs \<Longrightarrow>
     swap i j xs ! k = (if k = j then xs ! i else if k = i then xs ! j else xs ! k)"
  by (simp add: swap_def Let_def nth_list_update)

lemma bitrev_eq_iff: "i < 2 ^ m \<Longrightarrow> k < 2 ^ m \<Longrightarrow> bitrev m i = bitrev m k \<longleftrightarrow> i = k"
  by (metis bitrev_involution)

lemma permutedUpTo_0: "length xs = 2 ^ m \<Longrightarrow> permutedUpTo m 0 xs xs"
proof -
  assume l: "length xs = 2 ^ m"
  have "k = 0" if "k < 2 ^ m" "bitrev m k = 0" for k
    using that bitrev_involution[of k m] by simp
  then show ?thesis using l by (auto simp add: permutedUpTo_def)
qed

lemma permutedUpTo_step:
  assumes l: "length xs = 2 ^ m" and n: "Suc n < 2 ^ m" and p: "permutedUpTo m n xs ys"
  shows "permutedUpTo m (Suc n) xs
           (if Suc n < bitrev m (Suc n) then swap (Suc n) (bitrev m (Suc n)) ys else ys)"
proof -
  let ?j = "bitrev m (Suc n)"
  have jl: "?j < 2 ^ m" by (rule bitrev_less)
  have inv: "bitrev m ?j = Suc n" using n by (rule bitrev_involution)
  have ly: "length ys = 2 ^ m" using p l by (simp add: permutedUpTo_def)
  have old: "ys ! k = (if k \<le> n \<or> bitrev m k \<le> n then xs ! bitrev m k else xs ! k)"
    if "k < 2 ^ m" for k using p l that by (simp add: permutedUpTo_def)
  show ?thesis
  proof (cases "Suc n < ?j")
    case True
    have a: "ys ! Suc n = xs ! Suc n" using old[OF n] True by simp
    have b: "ys ! ?j = xs ! ?j" using old[OF jl] True inv by simp
    have "swap (Suc n) ?j ys ! k = (if k \<le> Suc n \<or> bitrev m k \<le> Suc n then xs ! bitrev m k else xs ! k)"
      if k: "k < 2 ^ m" for k
    proof -
      consider "k = ?j" | "k = Suc n" | "k \<noteq> ?j" "k \<noteq> Suc n" by blast
      then show ?thesis
      proof cases
        case 1
        then show ?thesis using a inv n jl ly by (simp add: nth_swap)
      next
        case 2
        then show ?thesis using b True n jl ly by (simp add: nth_swap)
      next
        case 3
        have "bitrev m k \<noteq> Suc n" using 3(1) k bitrev_involution[OF k] by auto
        then show ?thesis using 3 old[OF k] k n jl ly by (auto simp add: nth_swap le_Suc_eq)
      qed
    qed
    then show ?thesis using True l ly by (simp add: permutedUpTo_def)
  next
    case False
    have "ys ! k = (if k \<le> Suc n \<or> bitrev m k \<le> Suc n then xs ! bitrev m k else xs ! k)"
      if k: "k < 2 ^ m" for k
    proof (cases "k = Suc n")
      case True
      show ?thesis
      proof (cases "?j = Suc n")
        case True
        with \<open>k = Suc n\<close> old[OF k] show ?thesis by simp
      next
        case f: False
        with False have "?j \<le> n" by simp
        with \<open>k = Suc n\<close> old[OF k] show ?thesis by simp
      qed
    next
      case kn: False
      show ?thesis
      proof (cases "bitrev m k = Suc n")
        case True
        then have "k = ?j" using bitrev_involution[OF k] by simp
        with False kn have "k \<le> n" by simp
        with old[OF k] show ?thesis by simp
      next
        case False
        with kn old[OF k] show ?thesis by (auto simp add: le_Suc_eq)
      qed
    qed
    then show ?thesis using False l ly by (simp add: permutedUpTo_def)
  qed
qed

lemma bitReversal_fold:
  assumes lr: "length (re a) = 2 ^ m" and li: "length (im a) = 2 ^ m" and n: "n < 2 ^ m"
  shows "\<exists>a'. fold (bitReversalStep (2 ^ m)) [1..<Suc n] (a, 0) = (a', bitrev m n)
            \<and> permutedUpTo m n (re a) (re a') \<and> permutedUpTo m n (im a) (im a')"
  using n
proof (induction n)
  case 0
  show ?case using lr li by (simp add: permutedUpTo_0)
next
  case (Suc n)
  then obtain a' where f: "fold (bitReversalStep (2 ^ m)) [1..<Suc n] (a, 0) = (a', bitrev m n)"
    and pr: "permutedUpTo m n (re a) (re a')" and pi: "permutedUpTo m n (im a) (im a')"
    by auto
  have j: "reverseIncrement (bitrev m n) (drop_bit 1 (2 ^ m)) = bitrev m (Suc n)"
    using reverseIncrement_bitrev[of n m] Suc.prems by simp
  have "fold (bitReversalStep (2 ^ m)) [1..<Suc (Suc n)] (a, 0)
          = bitReversalStep (2 ^ m) (Suc n) (a', bitrev m n)"
    using f by simp
  also have "\<dots> = (if Suc n < bitrev m (Suc n)
                     then \<lparr> re = swap (Suc n) (bitrev m (Suc n)) (re a'),
                            im = swap (Suc n) (bitrev m (Suc n)) (im a') \<rparr>
                     else a', bitrev m (Suc n))"
    by (simp only: bitReversalStep_def Let_def fst_conv snd_conv j if_distrib[of "\<lambda>x. (x, _)"] split: if_splits)
  finally have g: "fold (bitReversalStep (2 ^ m)) [1..<Suc (Suc n)] (a, 0)
          = (if Suc n < bitrev m (Suc n)
                     then \<lparr> re = swap (Suc n) (bitrev m (Suc n)) (re a'),
                            im = swap (Suc n) (bitrev m (Suc n)) (im a') \<rparr>
                     else a', bitrev m (Suc n))" .
  let ?a'' = "if Suc n < bitrev m (Suc n)
                     then \<lparr> re = swap (Suc n) (bitrev m (Suc n)) (re a'),
                            im = swap (Suc n) (bitrev m (Suc n)) (im a') \<rparr>
                     else a'"
  have "permutedUpTo m (Suc n) (re a) (re ?a'')"
    using permutedUpTo_step[OF lr Suc.prems pr] by (cases "Suc n < bitrev m (Suc n)") simp_all
  moreover have "permutedUpTo m (Suc n) (im a) (im ?a'')"
    using permutedUpTo_step[OF li Suc.prems pi] by (cases "Suc n < bitrev m (Suc n)") simp_all
  ultimately show ?case
    using g by blast
qed

lemma bitReversal_nth:
  assumes lr: "length (re a) = 2 ^ m" and li: "length (im a) = 2 ^ m"
  shows "length (re (bitReversal (2 ^ m) a)) = 2 ^ m"
    and "length (im (bitReversal (2 ^ m) a)) = 2 ^ m"
    and "k < 2 ^ m \<Longrightarrow> re (bitReversal (2 ^ m) a) ! k = re a ! bitrev m k"
    and "k < 2 ^ m \<Longrightarrow> im (bitReversal (2 ^ m) a) ! k = im a ! bitrev m k"
proof -
  have n: "2 ^ m - 1 < (2::nat) ^ m" by simp
  have s: "Suc (2 ^ m - 1) = (2::nat) ^ m" by simp
  obtain a' where f: "fold (bitReversalStep (2 ^ m)) [1..<2 ^ m] (a, 0) = (a', bitrev m (2 ^ m - 1))"
    and pr: "permutedUpTo m (2 ^ m - 1) (re a) (re a')" and pi: "permutedUpTo m (2 ^ m - 1) (im a) (im a')"
    using bitReversal_fold[OF lr li n] unfolding s by blast
  have e: "bitReversal (2 ^ m) a = a'" unfolding bitReversal_def f by simp
  show "length (re (bitReversal (2 ^ m) a)) = 2 ^ m" using pr lr by (simp add: e permutedUpTo_def)
  show "length (im (bitReversal (2 ^ m) a)) = 2 ^ m" using pi li by (simp add: e permutedUpTo_def)
  show "re (bitReversal (2 ^ m) a) ! k = re a ! bitrev m k" if "k < 2 ^ m"
    using pr lr that unfolding e permutedUpTo_def by auto
  show "im (bitReversal (2 ^ m) a) ! k = im a ! bitrev m k" if "k < 2 ^ m"
    using pi li that unfolding e permutedUpTo_def by auto
qed

lemma butterfly_effect:
  assumes lr: "length (re a) = sz" and li: "length (im a) = sz"
    and h: "0 < drop_bit 1 step" and o: "block + i + drop_bit 1 step < sz"
  shows "length (re (butterfly sz tws step block i a)) = sz"
    and "length (im (butterfly sz tws step block i a)) = sz"
    and "cz (butterfly sz tws step block i a) (block + i)
           = cz a (block + i) + twc tws (i * (sz div step)) * cz a (block + i + drop_bit 1 step)"
    and "cz (butterfly sz tws step block i a) (block + i + drop_bit 1 step)
           = cz a (block + i) - twc tws (i * (sz div step)) * cz a (block + i + drop_bit 1 step)"
    and "p \<noteq> block + i \<Longrightarrow> p \<noteq> block + i + drop_bit 1 step \<Longrightarrow>
           cz (butterfly sz tws step block i a) p = cz a p"
  using assms
  by (simp_all add: butterfly_def Let_def cz_def twc_def nth_list_update complex_eq_iff)

lemma inner_fold:
  assumes lr: "length (re a) = sz" and li: "length (im a) = sz"
    and h: "0 < drop_bit 1 step" and b: "block + 2 * drop_bit 1 step \<le> sz"
    and n: "n \<le> drop_bit 1 step"
  shows "innerDone sz tws step block n a (fold (butterfly sz tws step block) [0..<n] a)"
  using n
proof (induction n)
  case 0
  show ?case using lr li by (auto simp add: innerDone_def)
next
  case (Suc n)
  let ?h = "drop_bit 1 step"
  let ?a' = "fold (butterfly sz tws step block) [0..<n] a"
  have ih: "innerDone sz tws step block n a ?a'" using Suc by simp
  have nh: "n < ?h" using Suc.prems by simp
  have lr': "length (re ?a') = sz" and li': "length (im ?a') = sz"
    using ih by (simp_all add: innerDone_def)
  have o: "block + n + ?h < sz" using nh b by simp
  have old: "cz ?a' p =
        (if block \<le> p \<and> p < block + n
         then cz a p + twc tws ((p - block) * (sz div step)) * cz a (p + ?h)
         else if block + ?h \<le> p \<and> p < block + ?h + n
         then cz a (p - ?h) - twc tws ((p - block - ?h) * (sz div step)) * cz a p
         else cz a p)" for p
    using ih by (simp add: innerDone_def)
  have e: "cz ?a' (block + n) = cz a (block + n)" using old[of "block + n"] nh by simp
  have d: "cz ?a' (block + n + ?h) = cz a (block + n + ?h)" using old[of "block + n + ?h"] by simp
  note bf = butterfly_effect[OF lr' li' h o, where tws = tws]
  have f: "fold (butterfly sz tws step block) [0..<Suc n] a = butterfly sz tws step block n ?a'"
    by simp
  have "cz (butterfly sz tws step block n ?a') p =
        (if block \<le> p \<and> p < block + Suc n
         then cz a p + twc tws ((p - block) * (sz div step)) * cz a (p + ?h)
         else if block + ?h \<le> p \<and> p < block + ?h + Suc n
         then cz a (p - ?h) - twc tws ((p - block - ?h) * (sz div step)) * cz a p
         else cz a p)" for p
  proof -
    consider "p = block + n" | "p = block + n + ?h" | "p \<noteq> block + n" "p \<noteq> block + n + ?h"
      by blast
    then show ?thesis
    proof cases
      case 1
      then show ?thesis using bf(3) e d by simp
    next
      case 2
      then show ?thesis using bf(4) e d nh by simp
    next
      case 3
      then show ?thesis using bf(5)[OF 3] old[of p] by (auto simp add: less_Suc_eq)
    qed
  qed
  then show ?case unfolding f innerDone_def using bf(1,2) by blast
qed

lemma mod_block:
  assumes "nb * step \<le> p" "p < nb * step + step"
  shows "p mod step = p - nb * (step :: nat)"
proof -
  obtain u where u: "p = nb * step + u" using assms(1) by (auto simp add: le_iff_add)
  with assms(2) have "u < step" by simp
  with u show ?thesis by simp
qed

lemma outer_fold:
  assumes lr: "length (re a) = sz" and li: "length (im a) = sz"
    and st: "step = 2 * h" and h: "0 < h" and nb: "nb * step \<le> sz"
  shows "outerDone sz tws step nb a
           (fold (\<lambda>block. fold (butterfly sz tws step block) [0..<drop_bit 1 step])
                 (map (\<lambda>b. b * step) [0..<nb]) a)"
  using nb
proof (induction nb)
  case 0
  show ?case using lr li by (simp add: outerDone_def)
next
  case (Suc nb)
  have hh: "drop_bit 1 step = h" using st by (simp add: drop_bit_eq_div)
  let ?f = "\<lambda>block. fold (butterfly sz tws step block) [0..<drop_bit 1 step]"
  let ?a' = "fold ?f (map (\<lambda>b. b * step) [0..<nb]) a"
  have le: "nb * step \<le> sz" using Suc.prems by simp
  have ih: "outerDone sz tws step nb a ?a'" using Suc.IH[OF le] .
  have lr': "length (re ?a') = sz" and li': "length (im ?a') = sz"
    using ih by (simp_all add: outerDone_def)
  have old: "cz ?a' p = (if p < nb * step then passValue sz tws step a p else cz a p)" for p
    using ih by (simp add: outerDone_def)
  have b: "nb * step + 2 * drop_bit 1 step \<le> sz" using Suc.prems st hh by simp
  have h': "0 < drop_bit 1 step" using h hh by simp
  have inner: "innerDone sz tws step (nb * step) (drop_bit 1 step) ?a' (?f (nb * step) ?a')"
    by (rule inner_fold[OF lr' li' h' b]) simp
  have f: "fold ?f (map (\<lambda>b. b * step) [0..<Suc nb]) a = ?f (nb * step) ?a'"
    by simp
  have "cz (?f (nb * step) ?a') p = (if p < Suc nb * step then passValue sz tws step a p else cz a p)" for p
  proof -
    have new: "cz (?f (nb * step) ?a') p =
        (if nb * step \<le> p \<and> p < nb * step + h
         then cz ?a' p + twc tws ((p - nb * step) * (sz div step)) * cz ?a' (p + h)
         else if nb * step + h \<le> p \<and> p < nb * step + h + h
         then cz ?a' (p - h) - twc tws ((p - nb * step - h) * (sz div step)) * cz ?a' p
         else cz ?a' p)"
      using inner unfolding innerDone_def hh by blast
    consider "p < nb * step" | "nb * step \<le> p" "p < nb * step + h"
      | "nb * step + h \<le> p" "p < nb * step + h + h" | "nb * step + h + h \<le> p"
      by linarith
    then show ?thesis
    proof cases
      case 1
      then show ?thesis using new old[of p] by simp
    next
      case 2
      then have m: "p mod step = p - nb * step"
        using st by (intro mod_block) simp_all
      have "p < Suc nb * step" using 2 st by simp
      moreover have "p - nb * step < h" using 2 by arith
      ultimately show ?thesis using 2 new old[of p] old[of "p + h"] m hh
        by (simp add: passValue_def Let_def)
    next
      case 3
      then have m: "p mod step = p - nb * step"
        using st by (intro mod_block) simp_all
      have "p < Suc nb * step" using 3 st by simp
      moreover have "\<not> p - nb * step < h" using 3 by arith
      moreover have "\<not> p - h < nb * step" using 3 by arith
      ultimately show ?thesis using 3 new old[of p] old[of "p - h"] m hh
        by (simp add: passValue_def Let_def)
    next
      case 4
      then have "\<not> p < Suc nb * step" using st by simp
      then show ?thesis using 4 new old[of p] by simp
    qed
  qed
  then show ?case unfolding f outerDone_def
    using inner by (simp add: innerDone_def)
qed

lemma sum_even_odd:
  fixes f :: "nat \<Rightarrow> complex"
  shows "(\<Sum>v < 2 * h. f v) = (\<Sum>v < h. f (2 * v)) + (\<Sum>v < h. f (2 * v + 1))"
  by (induction h) (simp_all add: algebra_simps)

lemma pow2_split: "t < m \<Longrightarrow> (2::nat) ^ (m - Suc t) * 2 ^ Suc t = 2 ^ m"
proof -
  assume "t < m"
  then have h: "m - Suc t + Suc t = m" by simp
  have "(2::nat) ^ (m - Suc t) * 2 ^ Suc t = 2 ^ (m - Suc t + Suc t)"
    by (rule power_add[symmetric])
  then show ?thesis by (simp only: h)
qed

lemma div_round_up_exact:
  fixes S B :: nat
  assumes "0 < S"
  shows "(B * S + S - 1) div S = B"
proof (rule div_nat_eqI)
  show "S * B \<le> B * S + S - 1" using assms by (simp add: mult.commute)
  show "B * S + S - 1 < S * Suc B" using assms by (simp add: mult.commute)
qed

lemma blockStarts_pow2:
  assumes "t < m"
  shows "blockStarts (2 ^ m) (2 ^ Suc t) = map (\<lambda>b. b * 2 ^ Suc t) [0..<2 ^ (m - Suc t)]"
proof -
  define S :: nat where "S = 2 ^ Suc t"
  define B :: nat where "B = 2 ^ (m - Suc t)"
  have S: "0 < S" by (simp add: S_def)
  have e: "(2::nat) ^ m = B * S"
    unfolding S_def B_def using pow2_split[OF assms] by (simp only:)
  have "blockStarts (B * S) S = map (\<lambda>b. b * S) [0..<B]"
    unfolding blockStarts_def div_round_up_exact[OF S] ..
  then show ?thesis unfolding e[symmetric] unfolding S_def B_def .
qed

lemma pass_values:
  assumes lr: "length (re a) = 2 ^ m" and li: "length (im a) = 2 ^ m" and t: "t < m"
  shows "length (re (butterflyPass (2 ^ m) tws (2 ^ Suc t) a)) = 2 ^ m"
    and "length (im (butterflyPass (2 ^ m) tws (2 ^ Suc t) a)) = 2 ^ m"
    and "p < 2 ^ m \<Longrightarrow> cz (butterflyPass (2 ^ m) tws (2 ^ Suc t) a) p
           = passValue (2 ^ m) tws (2 ^ Suc t) a p"
proof -
  have e: "(2::nat) ^ (m - Suc t) * 2 ^ Suc t = 2 ^ m"
    by (rule pow2_split[OF t])
  have "outerDone (2 ^ m) tws (2 ^ Suc t) (2 ^ (m - Suc t)) a
           (fold (\<lambda>block. fold (butterfly (2 ^ m) tws (2 ^ Suc t) block) [0..<drop_bit 1 (2 ^ Suc t)])
                 (map (\<lambda>b. b * 2 ^ Suc t) [0..<2 ^ (m - Suc t)]) a)"
  proof (rule outer_fold[OF lr li, where h = "2 ^ t"])
    show "(2::nat) ^ Suc t = 2 * 2 ^ t" by simp
    show "0 < (2::nat) ^ t" by simp
    show "(2::nat) ^ (m - Suc t) * 2 ^ Suc t \<le> 2 ^ m" by (simp only: e)
  qed
  then have d: "outerDone (2 ^ m) tws (2 ^ Suc t) (2 ^ (m - Suc t)) a (butterflyPass (2 ^ m) tws (2 ^ Suc t) a)"
    unfolding butterflyPass_def blockStarts_pow2[OF t] .
  show "length (re (butterflyPass (2 ^ m) tws (2 ^ Suc t) a)) = 2 ^ m"
    and "length (im (butterflyPass (2 ^ m) tws (2 ^ Suc t) a)) = 2 ^ m"
    using d by (simp_all add: outerDone_def)
  show "cz (butterflyPass (2 ^ m) tws (2 ^ Suc t) a) p = passValue (2 ^ m) tws (2 ^ Suc t) a p"
    if "p < 2 ^ m"
    using d that unfolding outerDone_def e by (simp only: if_True)
qed

lemma stage_step:
  assumes st: "stage m x w t a" and t: "t < m"
    and tw: "\<forall>k < 2 ^ (m - 1). twc tws k = w ^ k"
    and half: "w ^ (2 ^ (m - 1)) = - 1"
  shows "stage m x w (Suc t) (butterflyPass (2 ^ m) tws (2 ^ Suc t) a)"
proof -
  define K :: nat where "K = 2 ^ (m - Suc t)"
  define h :: nat where "h = 2 ^ t"
  let ?a' = "butterflyPass (2 ^ m) tws (2 ^ Suc t) a"
  have lr: "length (re a) = 2 ^ m" and li: "length (im a) = 2 ^ m"
    using st by (simp_all add: stage_def)
  have mt: "m - t = Suc (m - Suc t)" using t by simp
  have K2: "(2::nat) ^ (m - t) = 2 * K" unfolding mt K_def by simp
  have h2: "(2::nat) ^ Suc t = 2 * h" unfolding h_def by simp
  have sz: "(2::nat) ^ m = K * (2 * h)"
    using pow2_split[OF t] unfolding K_def h_def by simp
  have Kh: "K * h = 2 ^ (m - 1)"
  proof -
    have "(2::nat) * (K * h) = 2 * 2 ^ (m - 1)"
      using sz t by (cases m) (simp_all add: mult.commute mult.left_commute)
    then show ?thesis by simp
  qed
  have hpos: "0 < h" by (simp add: h_def)
  have Kpos: "0 < K" by (simp add: K_def)
  have wKh: "w ^ (K * h) = - 1" using half Kh by simp
  have w2Kh: "w ^ (2 * K * h * e) = 1" for e
  proof -
    have "2 * K * h * e = K * h * 2 * e" by simp
    then have "w ^ (2 * K * h * e) = ((w ^ (K * h)) ^ 2) ^ e"
      by (simp only: power_mult)
    then show ?thesis by (simp add: wKh)
  qed
  have old: "cz a (b0 * h + u0)
          = (\<Sum>v < h. x (bitrev (Suc (m - Suc t)) b0 + v * (2 * K)) * w ^ (2 * K * v * u0))"
    if "b0 < 2 * K" "u0 < h" for b0 u0
    using st that unfolding stage_def K2 mt[symmetric] h_def[symmetric] 
    by (simp add: K2 mt[symmetric])
  have dv: "(2::nat) ^ m div (2 * h) = K"
    unfolding sz using hpos by simp
  have db: "drop_bit (Suc 0) (2 * h) = h"
    by (simp add: drop_bit_eq_div)
  have twK: "twc tws (u0 * K) = w ^ (u0 * K)" if "u0 < h" for u0
  proof -
    have "u0 * K < h * K" using that Kpos by simp
    then have "u0 * K < 2 ^ (m - 1)" using Kh by (simp add: mult.commute)
    then show ?thesis using tw by simp
  qed
  have main: "cz ?a' (b * (2 * h) + u)
          = (\<Sum>v < 2 * h. x (bitrev (m - Suc t) b + v * K) * w ^ (K * v * u))"
    if b: "b < K" and u: "u < 2 * h" for b u
  proof -
    define r where "r = bitrev (m - Suc t) b"
    have p: "b * (2 * h) + u < 2 ^ m"
    proof -
      have "b * (2 * h) + u < b * (2 * h) + 2 * h" using u by simp
      also have "\<dots> = Suc b * (2 * h)" by simp
      also have "\<dots> \<le> K * (2 * h)" using b by (intro mult_le_mono1) simp
      finally show ?thesis by (simp add: sz)
    qed
    have md: "(b * (2 * h) + u) mod (2 * h) = u" using u by simp
    have pv: "cz ?a' (b * (2 * h) + u) = passValue (2 ^ m) tws (2 ^ Suc t) a (b * (2 * h) + u)"
      using pass_values(3)[OF lr li t p] .
    have E: "cz a (2 * b * h + u0) = (\<Sum>v < h. x (r + v * (2 * K)) * w ^ (2 * K * v * u0))"
      if "u0 < h" for u0
      using old[of "2 * b" u0] that b by (simp add: r_def)
    have O: "cz a ((2 * b + 1) * h + u0) = (\<Sum>v < h. x (K + r + v * (2 * K)) * w ^ (2 * K * v * u0))"
      if "u0 < h" for u0
      using old[of "2 * b + 1" u0] that b by (simp add: r_def K_def)
    have split: "(\<Sum>v < 2 * h. x (r + v * K) * w ^ (K * v * u))
        = (\<Sum>v < h. x (r + 2 * v * K) * w ^ (K * (2 * v) * u))
          + (\<Sum>v < h. x (r + (2 * v + 1) * K) * w ^ (K * (2 * v + 1) * u))"
      by (rule sum_even_odd)
    show ?thesis
    proof (cases "u < h")
      case True
      have v: "passValue (2 ^ m) tws (2 ^ Suc t) a (b * (2 * h) + u)
            = cz a (b * (2 * h) + u) + twc tws (u * K) * cz a (b * (2 * h) + u + h)"
        using True md unfolding passValue_def h2 by (simp add: Let_def dv db)
      have i1: "b * (2 * h) + u = 2 * b * h + u" by simp
      have i2: "2 * b * h + u + h = (2 * b + 1) * h + u" by (simp add: algebra_simps)
      have e1: "(\<Sum>v < h. x (r + 2 * v * K) * w ^ (K * (2 * v) * u))
              = (\<Sum>v < h. x (r + v * (2 * K)) * w ^ (2 * K * v * u))"
        by (rule sum.cong) (simp_all add: mult.commute mult.left_commute)
      have e2: "(\<Sum>v < h. x (r + (2 * v + 1) * K) * w ^ (K * (2 * v + 1) * u))
              = w ^ (u * K) * (\<Sum>v < h. x (K + r + v * (2 * K)) * w ^ (2 * K * v * u))"
        unfolding sum_distrib_left
      proof (rule sum.cong)
        fix v
        have "K * (2 * v + 1) * u = u * K + 2 * K * v * u" by (simp add: algebra_simps)
        then have pw: "w ^ (K * (2 * v + 1) * u) = w ^ (u * K) * w ^ (2 * K * v * u)"
          by (simp add: power_add)
        have ix: "r + (2 * v + 1) * K = K + r + v * (2 * K)" by (simp add: algebra_simps)
        show "x (r + (2 * v + 1) * K) * w ^ (K * (2 * v + 1) * u)
              = w ^ (u * K) * (x (K + r + v * (2 * K)) * w ^ (2 * K * v * u))"
          unfolding pw ix by (simp only: ac_simps)
      qed simp
      have "cz ?a' (b * (2 * h) + u)
              = cz a (b * (2 * h) + u) + twc tws (u * K) * cz a (b * (2 * h) + u + h)"
        by (simp only: pv v)
      also have "\<dots> = (\<Sum>v < h. x (r + v * (2 * K)) * w ^ (2 * K * v * u))
              + w ^ (u * K) * (\<Sum>v < h. x (K + r + v * (2 * K)) * w ^ (2 * K * v * u))"
        by (simp only: i1 i2 E[OF True] O[OF True] twK[OF True])
      also have "\<dots> = (\<Sum>v < 2 * h. x (r + v * K) * w ^ (K * v * u))"
        by (simp only: split e1 e2)
      finally show ?thesis unfolding r_def .
    next
      case False
      define u0 where "u0 = u - h"
      have u0: "u0 < h" and uu: "u = u0 + h" using False u by (simp_all add: u0_def)
      have v: "passValue (2 ^ m) tws (2 ^ Suc t) a (b * (2 * h) + u)
            = cz a (b * (2 * h) + u - h) - twc tws (u0 * K) * cz a (b * (2 * h) + u)"
        using False md unfolding passValue_def h2 u0_def by (simp add: Let_def dv db)
      have i1: "(2 * b + 1) * h + u0 - h = 2 * b * h + u0" by (simp add: algebra_simps)
      have i2: "b * (2 * h) + u = (2 * b + 1) * h + u0" using uu by (simp add: algebra_simps)
      have e1: "(\<Sum>v < h. x (r + 2 * v * K) * w ^ (K * (2 * v) * u))
              = (\<Sum>v < h. x (r + v * (2 * K)) * w ^ (2 * K * v * u0))"
      proof (rule sum.cong)
        fix v
        have "K * (2 * v) * u = 2 * K * v * u0 + 2 * K * h * v" unfolding uu by (simp add: algebra_simps)
        then have pw: "w ^ (K * (2 * v) * u) = w ^ (2 * K * v * u0)"
          by (simp add: power_add w2Kh)
        have ix: "r + 2 * v * K = r + v * (2 * K)" by simp
        show "x (r + 2 * v * K) * w ^ (K * (2 * v) * u) = x (r + v * (2 * K)) * w ^ (2 * K * v * u0)"
          unfolding pw ix by (simp only: ac_simps)
      qed simp
      have e2: "(\<Sum>v < h. x (r + (2 * v + 1) * K) * w ^ (K * (2 * v + 1) * u))
              = - (w ^ (u0 * K) * (\<Sum>v < h. x (K + r + v * (2 * K)) * w ^ (2 * K * v * u0)))"
        unfolding sum_distrib_left sum_negf[symmetric]
      proof (rule sum.cong)
        fix v
        have "K * (2 * v + 1) * u = u0 * K + 2 * K * v * u0 + 2 * K * h * v + K * h"
          unfolding uu by (simp add: algebra_simps)
        then have pw: "w ^ (K * (2 * v + 1) * u) = - (w ^ (u0 * K) * w ^ (2 * K * v * u0))"
          by (simp add: power_add w2Kh wKh)
        have ix: "r + (2 * v + 1) * K = K + r + v * (2 * K)" by (simp add: algebra_simps)
        show "x (r + (2 * v + 1) * K) * w ^ (K * (2 * v + 1) * u)
              = - (w ^ (u0 * K) * (x (K + r + v * (2 * K)) * w ^ (2 * K * v * u0)))"
          unfolding pw ix by (simp only: mult_minus_right ac_simps)
      qed simp
      have "cz ?a' (b * (2 * h) + u)
              = cz a (b * (2 * h) + u - h) - twc tws (u0 * K) * cz a (b * (2 * h) + u)"
        by (simp only: pv v)
      also have "\<dots> = (\<Sum>v < h. x (r + v * (2 * K)) * w ^ (2 * K * v * u0))
              - w ^ (u0 * K) * (\<Sum>v < h. x (K + r + v * (2 * K)) * w ^ (2 * K * v * u0))"
        by (simp only: i1 i2 E[OF u0] O[OF u0] twK[OF u0])
      also have "\<dots> = (\<Sum>v < 2 * h. x (r + v * K) * w ^ (K * v * u))"
        by (simp only: split e1 e2) simp
      finally show ?thesis unfolding r_def .
    qed
  qed
  have fin: "length (re ?a') = 2 ^ m \<and> length (im ?a') = 2 ^ m \<and>
     (\<forall>b < K. \<forall>u < 2 * h. cz ?a' (b * (2 * h) + u)
          = (\<Sum>v < 2 * h. x (bitrev (m - Suc t) b + v * K) * w ^ (K * v * u)))"
    using pass_values(1,2)[OF lr li t] main by blast
  show ?thesis
    unfolding stage_def power_Suc by (rule fin[unfolded K_def h_def power_Suc])
qed

lemma passes_stage:
  assumes tw: "\<forall>k < 2 ^ (m - 1). twc tws k = w ^ k"
    and half: "w ^ (2 ^ (m - 1)) = - 1"
  shows "t \<le> m \<Longrightarrow> stage m x w t a \<Longrightarrow> stage m x w m (butterflyPasses (2 ^ m) tws (2 ^ Suc t) a)"
proof (induction "m - t" arbitrary: t a)
  case 0
  then have "t = m" by simp
  then have "(2::nat) ^ m < 2 ^ Suc t" by simp
  then have "butterflyPasses (2 ^ m) tws (2 ^ Suc t) a = a"
    by (subst butterflyPasses.simps) simp
  with 0 \<open>t = m\<close> show ?case by simp
next
  case (Suc d)
  then have t: "t < m" by simp
  have le: "(2::nat) ^ Suc t \<le> 2 ^ m" using t by (intro power_increasing) simp_all
  have "butterflyPasses (2 ^ m) tws (2 ^ Suc t) a
          = butterflyPasses (2 ^ m) tws (2 * 2 ^ Suc t) (butterflyPass (2 ^ m) tws (2 ^ Suc t) a)"
    using le by (subst butterflyPasses.simps) (simp add: not_less)
  also have "\<dots> = butterflyPasses (2 ^ m) tws (2 ^ Suc (Suc t)) (butterflyPass (2 ^ m) tws (2 ^ Suc t) a)"
    by simp
  finally have e: "butterflyPasses (2 ^ m) tws (2 ^ Suc t) a
          = butterflyPasses (2 ^ m) tws (2 ^ Suc (Suc t)) (butterflyPass (2 ^ m) tws (2 ^ Suc t) a)" .
  have s: "stage m x w (Suc t) (butterflyPass (2 ^ m) tws (2 ^ Suc t) a)"
    using stage_step[OF Suc.prems(2) t tw half] .
  have d: "d = m - Suc t" using Suc.hyps(2) by simp
  show ?case unfolding e
    using Suc.hyps(1)[OF d _ s] t by simp
qed

lemma stage_initial:
  assumes lr: "length (re a) = 2 ^ m" and li: "length (im a) = 2 ^ m"
  shows "stage m (cz a) w 0 (bitReversal (2 ^ m) a)"
  using bitReversal_nth[OF lr li] by (simp add: stage_def cz_def)

lemma twc_getTwiddles:
  assumes "k < sz div 2"
  shows "twc (getTwiddles sz inverseFlag) k = rootOf sz inverseFlag ^ k"
proof -
  have "rootOf sz inverseFlag ^ k
          = cis (real k * ((if inverseFlag then 1 else - 1) * (2 * pi / real sz)))"
    by (simp add: rootOf_def DeMoivre)
  also have "\<dots> = twc (getTwiddles sz inverseFlag) k"
    using assms
    by (cases inverseFlag)
       (simp_all add: twc_def getTwiddles_def buildTwiddles_def Let_def cis.ctr complex_eq_iff
          mult.commute mult.left_commute)
  finally show ?thesis by simp
qed

lemma rootOf_half:
  assumes "0 < m"
  shows "rootOf (2 ^ m) inverseFlag ^ (2 ^ (m - 1)) = - 1"
proof -
  have e: "real (2 ^ (m - 1)) * (2 * pi / real (2 ^ m)) = pi"
  proof -
    have "(2::real) ^ m = 2 * 2 ^ (m - 1)" using assms by (cases m) simp_all
    then show ?thesis by simp
  qed
  have "rootOf (2 ^ m) inverseFlag ^ (2 ^ (m - 1))
          = cis ((if inverseFlag then 1 else - 1) * (real (2 ^ (m - 1)) * (2 * pi / real (2 ^ m))))"
    by (simp add: rootOf_def DeMoivre mult.commute mult.left_commute)
  also have "\<dots> = cis ((if inverseFlag then 1 else - 1) * pi)" by (simp only: e)
  also have "\<dots> = - 1" by (cases inverseFlag) (simp_all add: complex_eq_iff)
  finally show ?thesis .
qed

lemma transform_values:
  fixes a :: fftArrays and m :: nat and inverseFlag :: bool
  assumes lr: "length (re a) = 2 ^ m" and li: "length (im a) = 2 ^ m" and m: "0 < m"
  defines "a2 \<equiv> butterflyPasses (2 ^ m) (getTwiddles (2 ^ m) inverseFlag) 2 (bitReversal (2 ^ m) a)"
  shows "length (re a2) = 2 ^ m" and "length (im a2) = 2 ^ m"
    and "u < 2 ^ m \<Longrightarrow> cz a2 u = (\<Sum>v < 2 ^ m. cz a v * rootOf (2 ^ m) inverseFlag ^ (v * u))"
proof -
  have h: "(2::nat) ^ m div 2 = 2 ^ (m - 1)" using m by (cases m) simp_all
  have tw: "\<forall>k < 2 ^ (m - 1). twc (getTwiddles (2 ^ m) inverseFlag) k = rootOf (2 ^ m) inverseFlag ^ k"
    using twc_getTwiddles[of _ "2 ^ m" inverseFlag] unfolding h by blast
  have "stage m (cz a) (rootOf (2 ^ m) inverseFlag) m
          (butterflyPasses (2 ^ m) (getTwiddles (2 ^ m) inverseFlag) (2 ^ Suc 0) (bitReversal (2 ^ m) a))"
    by (rule passes_stage[OF tw rootOf_half[OF m] _ stage_initial[OF lr li]]) simp
  then have s: "stage m (cz a) (rootOf (2 ^ m) inverseFlag) m a2"
    by (simp add: a2_def)
  show "length (re a2) = 2 ^ m" and "length (im a2) = 2 ^ m"
    using s by (simp_all add: stage_def)
  show "cz a2 u = (\<Sum>v < 2 ^ m. cz a v * rootOf (2 ^ m) inverseFlag ^ (v * u))" if "u < 2 ^ m"
    using s that unfolding stage_def by simp
qed

lemma root_product:
  assumes n: "0 < n"
  shows "rootOf n False ^ (k * v) * rootOf n True ^ (v * u)
           = cis (2 * pi * (real u - real k) / real n) ^ v"
proof -
  have "rootOf n False ^ (k * v) * rootOf n True ^ (v * u)
          = cis (real (k * v) * (- (2 * pi / real n)) + real (v * u) * (2 * pi / real n))"
    by (simp add: rootOf_def DeMoivre cis_mult)
  also have "real (k * v) * (- (2 * pi / real n)) + real (v * u) * (2 * pi / real n)
          = real v * (2 * pi * (real u - real k) / real n)"
    by (simp add: algebra_simps diff_divide_distrib)
  finally show ?thesis by (simp add: DeMoivre)
qed

lemma root_not_one:
  assumes n: "0 < n" and k: "k < n" and u: "u < n" and ne: "k \<noteq> u"
  shows "cis (2 * pi * (real u - real k) / real n) \<noteq> 1"
proof
  assume "cis (2 * pi * (real u - real k) / real n) = 1"
  then have "cos (2 * pi * (real u - real k) / real n) = 1"
    by (simp add: complex_eq_iff)
  then obtain j :: int where j: "2 * pi * (real u - real k) / real n = real_of_int j * 2 * pi"
    using cos_one_2pi_int by blast
  have "real u - real k = real_of_int j * real n"
  proof -
    from j have "(2 * pi) * ((real u - real k) / real n) = (2 * pi) * real_of_int j"
      by (simp add: mult.commute mult.left_commute)
    moreover have "2 * pi \<noteq> 0" by simp
    ultimately have "(real u - real k) / real n = real_of_int j"
      using mult_left_cancel[of "2 * pi" "(real u - real k) / real n" "real_of_int j"] by blast
    then show ?thesis using n by (simp add: field_simps)
  qed
  then have "real_of_int (int u - int k) = real_of_int (j * int n)" by simp
  then have e: "int u - int k = j * int n" by (simp only: of_int_eq_iff)
  have "\<bar>int u - int k\<bar> < int n" using k u by simp
  then have "\<bar>j\<bar> * int n < 1 * int n" using e by (simp add: abs_mult)
  then have "\<bar>j\<bar> < 1" using n by simp
  then have "j = 0" by simp
  with e ne show False by simp
qed

lemma root_power_one:
  assumes n: "0 < n"
  shows "cis (2 * pi * (real u - real k) / real n) ^ n = 1"
proof -
  have "cis (2 * pi * (real u - real k) / real n) ^ n = cis (real n * (2 * pi * (real u - real k) / real n))"
    by (simp add: DeMoivre)
  also have "real n * (2 * pi * (real u - real k) / real n) = 2 * pi * (real u - real k)"
    using n by simp
  also have "cis (2 * pi * (real u - real k)) = 1"
    by (rule cis_multiple_2pi) simp
  finally show ?thesis .
qed

lemma orthogonality:
  assumes n: "0 < n" and k: "k < n" and u: "u < n"
  shows "(\<Sum>v < n. rootOf n False ^ (k * v) * rootOf n True ^ (v * u))
           = (if k = u then of_nat n else 0)"
proof -
  let ?r = "cis (2 * pi * (real u - real k) / real n)"
  have s: "(\<Sum>v < n. rootOf n False ^ (k * v) * rootOf n True ^ (v * u)) = (\<Sum>v < n. ?r ^ v)"
    by (rule sum.cong) (simp_all add: root_product[OF n])
  show ?thesis
  proof (cases "k = u")
    case True
    then show ?thesis unfolding s by simp
  next
    case False
    have "(\<Sum>v < n. ?r ^ v) = (1 - ?r ^ n) / (1 - ?r)"
      using root_not_one[OF n k u False] by (simp only: sum_gp_strict if_False)
    also have "\<dots> = 0" by (simp only: root_power_one[OF n]) simp
    finally show ?thesis unfolding s using False by simp
  qed
qed

lemma cz_scaleArrays:
  assumes "u < length (re a)" "u < length (im a)"
  shows "cz (scaleArrays sz a) u = cz a u * of_real (1 / real sz)"
  using assms by (simp add: scaleArrays_def cz_def Let_def complex_eq_iff)

lemma arrays_eqI:
  assumes "length (re b) = n" "length (im b) = n" "length (re a) = n" "length (im a) = n"
    and "\<And>u. u < n \<Longrightarrow> cz b u = cz a u"
  shows "b = (a :: fftArrays)"
proof -
  have "re b = re a"
    using assms by (intro nth_equalityI) (auto simp add: cz_def)
  moreover have "im b = im a"
    using assms by (intro nth_equalityI) (auto simp add: cz_def)
  ultimately show ?thesis by simp
qed

lemma fft_forward:
  assumes lr: "length (re a) = 2 ^ m" and li: "length (im a) = 2 ^ m" and m: "0 < m"
  shows "fft a False = (None, butterflyPasses (2 ^ m) (getTwiddles (2 ^ m) False) 2 (bitReversal (2 ^ m) a))"
  using assms isPowerOfTwo_pow2[OF m] by (simp add: fft_def Let_def)

lemma fft_inverse:
  assumes lr: "length (re a) = 2 ^ m" and li: "length (im a) = 2 ^ m" and m: "0 < m"
  shows "fft a True = (None, scaleArrays (2 ^ m)
            (butterflyPasses (2 ^ m) (getTwiddles (2 ^ m) True) 2 (bitReversal (2 ^ m) a)))"
  using assms isPowerOfTwo_pow2[OF m] by (simp add: fft_def Let_def)

text \<open>
  Claim C5, as the code has it, over ideal (real) arithmetic: for arrays of equal length
  \<open>2^m\<close> with \<open>1 \<le> m < 30\<close> (the lengths from 2 on for which the 32-bit shifts of the
  source do not overflow) the forward transform returns without error, and the inverse
  transform applied to its result returns without error and leaves exactly the original
  arrays.
\<close>

theorem fft_round_trip:
  assumes lr: "length (re a) = 2 ^ m" and li: "length (im a) = 2 ^ m"
    and m: "0 < m" and small: "m < 30"
  shows "fst (fft a False) = None \<and> fft (snd (fft a False)) True = (None, a)"
proof -
  define n :: nat where "n = 2 ^ m"
  define A where "A = butterflyPasses (2 ^ m) (getTwiddles (2 ^ m) False) 2 (bitReversal (2 ^ m) a)"
  define B0 where "B0 = butterflyPasses (2 ^ m) (getTwiddles (2 ^ m) True) 2 (bitReversal (2 ^ m) A)"
  have npos: "0 < n" by (simp add: n_def)
  have f: "fft a False = (None, A)" unfolding A_def by (rule fft_forward[OF lr li m])
  have Alr: "length (re A) = 2 ^ m" and Ali: "length (im A) = 2 ^ m"
    unfolding A_def using transform_values(1,2)[OF lr li m] by blast+
  have Av: "cz A v = (\<Sum>k < n. cz a k * rootOf n False ^ (k * v))" if "v < n" for v
    unfolding A_def n_def using transform_values(3)[OF lr li m] that unfolding n_def by blast
  have g: "fft A True = (None, scaleArrays (2 ^ m) B0)"
    unfolding B0_def by (rule fft_inverse[OF Alr Ali m])
  have Blr: "length (re B0) = 2 ^ m" and Bli: "length (im B0) = 2 ^ m"
    unfolding B0_def using transform_values(1,2)[OF Alr Ali m] by blast+
  have Bv: "cz B0 u = (\<Sum>v < n. cz A v * rootOf n True ^ (v * u))" if "u < n" for u
    unfolding B0_def n_def using transform_values(3)[OF Alr Ali m] that unfolding n_def by blast
  have val: "cz (scaleArrays (2 ^ m) B0) u = cz a u" if u: "u < n" for u
  proof -
    have "cz B0 u = (\<Sum>v < n. (\<Sum>k < n. cz a k * rootOf n False ^ (k * v)) * rootOf n True ^ (v * u))"
      unfolding Bv[OF u] by (rule sum.cong) (simp_all add: Av)
    also have "\<dots> = (\<Sum>v < n. \<Sum>k < n. cz a k * (rootOf n False ^ (k * v) * rootOf n True ^ (v * u)))"
      by (simp add: sum_distrib_right mult.assoc)
    also have "\<dots> = (\<Sum>k < n. \<Sum>v < n. cz a k * (rootOf n False ^ (k * v) * rootOf n True ^ (v * u)))"
      by (rule sum.swap)
    also have "\<dots> = (\<Sum>k < n. cz a k * (if k = u then of_nat n else 0))"
      by (rule sum.cong) (simp_all add: sum_distrib_left[symmetric] orthogonality[OF npos _ u])
    also have "\<dots> = (\<Sum>k \<in> {..<n}. if k = u then cz a k * of_nat n else 0)"
      by (rule sum.cong) simp_all
    also have "\<dots> = cz a u * of_nat n"
      using u by (simp only: sum.delta finite_lessThan lessThan_iff if_True)
    finally have "cz B0 u = cz a u * of_nat n" .
    moreover have "cz (scaleArrays (2 ^ m) B0) u = cz B0 u * of_real (1 / real (2 ^ m))"
      using u Blr Bli by (intro cz_scaleArrays) (simp_all add: n_def)
    ultimately show ?thesis using npos by (simp add: n_def)
  qed
  have "scaleArrays (2 ^ m) B0 = a"
  proof (rule arrays_eqI[where n = n])
    show "length (re (scaleArrays (2 ^ m) B0)) = n" using Blr by (simp add: scaleArrays_def Let_def n_def)
    show "length (im (scaleArrays (2 ^ m) B0)) = n" using Bli by (simp add: scaleArrays_def Let_def n_def)
    show "length (re a) = n" using lr by (simp add: n_def)
    show "length (im a) = n" using li by (simp add: n_def)
    show "cz (scaleArrays (2 ^ m) B0) u = cz a u" if "u < n" for u using val[OF that] .
  qed
  with f g show ?thesis by simp
qed

theorem fft_round_trip_witness:
  "fft (snd (fft \<lparr> re = [1, 2], im = [0, 0] \<rparr> False)) True
     = (None, \<lparr> re = [1, 2], im = [0, 0] \<rparr>)"
  using fft_round_trip [of "\<lparr> re = [1, 2], im = [0, 0] \<rparr>" 1] by simp

text \<open>
  Claim C5 as stated fails for the power of two 1: \<^verbatim>\<open>isPowerOfTwo\<close> asks for a length
  above 1, so arrays of length 1 are refused by the forward and by the inverse transform.
\<close>

theorem fft_length_one_refused:
  "fft \<lparr> re = [1], im = [0] \<rparr> False = (Some FftNotPowerOfTwo, \<lparr> re = [1], im = [0] \<rparr>)
   \<and> fft \<lparr> re = [1], im = [0] \<rparr> True = (Some FftNotPowerOfTwo, \<lparr> re = [1], im = [0] \<rparr>)"
  by (simp add: fft_def isPowerOfTwo_def)

section \<open>A run with onsets\<close>

text \<open>
  The magnitudes \<^verbatim>\<open>fillMagnitudes\<close> stores for a frame are the absolute values of the
  discrete Fourier sums of the windowed frame.
\<close>

lemma frameMagnitudes_values:
  assumes fs: "envFftSize env = 2 ^ m" and m: "0 < m" and nb: "envNumBins env \<le> 2 ^ m"
  shows "\<exists>peak. frameMagnitudes env samples start =
           Inr (map (\<lambda>v. cmod (\<Sum>k < 2 ^ m.
                          of_real (fillWindowedSignal samples start (2 ^ m) (envWindow env) ! k)
                            * rootOf (2 ^ m) False ^ (k * v)))
                    [0..<envNumBins env], peak)"
proof -
  define w where "w = fillWindowedSignal samples start (2 ^ m) (envWindow env)"
  define a where "a = \<lparr> re = w, im = replicate (2 ^ m) 0 \<rparr>"
  define A where "A = butterflyPasses (2 ^ m) (getTwiddles (2 ^ m) False) 2 (bitReversal (2 ^ m) a)"
  have lr: "length (re a) = 2 ^ m" by (simp add: a_def w_def fillWindowedSignal_def)
  have li: "length (im a) = 2 ^ m" by (simp add: a_def)
  have f: "fft a False = (None, A)" unfolding A_def by (rule fft_forward[OF lr li m])
  have ca: "cz a k = of_real (w ! k)" if "k < 2 ^ m" for k
    using that by (simp add: cz_def a_def complex_eq_iff)
  have v: "cz A u = (\<Sum>k < 2 ^ m. of_real (w ! k) * rootOf (2 ^ m) False ^ (k * u))"
    if "u < 2 ^ m" for u
  proof -
    have "cz A u = (\<Sum>k < 2 ^ m. cz a k * rootOf (2 ^ m) False ^ (k * u))"
      unfolding A_def using transform_values(3)[OF lr li m that] .
    also have "\<dots> = (\<Sum>k < 2 ^ m. of_real (w ! k) * rootOf (2 ^ m) False ^ (k * u))"
      by (rule sum.cong) (simp_all add: ca)
    finally show ?thesis .
  qed
  have mg: "sqrt ((re A ! u)\<^sup>2 + (im A ! u)\<^sup>2) = cmod (cz A u)" for u
    by (simp add: cz_def cmod_def)
  have "fst (fillMagnitudes A (envNumBins env))
          = map (\<lambda>u. cmod (\<Sum>k < 2 ^ m. of_real (w ! k) * rootOf (2 ^ m) False ^ (k * u)))
                [0..<envNumBins env]"
    unfolding fillMagnitudes_def Let_def fst_conv using nb by (intro map_cong) (simp_all add: mg v)
  moreover have "frameMagnitudes env samples start = Inr (fillMagnitudes A (envNumBins env))"
    using f unfolding frameMagnitudes_def fs w_def[symmetric] a_def[symmetric] by simp
  ultimately show ?thesis
    unfolding w_def by (cases "fillMagnitudes A (envNumBins env)") auto
qed

lemma upt4: "[0..<4] = [0, 1, 2, 3]"
  by (simp add: upt_rec)

lemma hann4: "createHannWindow 4 ! Suc 0 = 3 / 4"
  by (simp add: createHannWindow_def upt4 cos_120)

lemma windowed_silent:
  "f \<in> {0, 2, 4} \<Longrightarrow> fillWindowedSignal clicks (f * 4) 4 w = [0, 0, 0, 0]"
  by (auto simp add: fillWindowedSignal_def upt4 clicks_def)

lemma windowed_click:
  "f \<in> {1, 3} \<Longrightarrow> fillWindowedSignal clicks (f * 4) 4 (createHannWindow 4) = [0, 3 / 4, 0, 0]"
  by (auto simp add: fillWindowedSignal_def upt4 clicks_def hann4)

lemma sum4: "(\<Sum>k < (4::nat). g k) = g 0 + g 1 + g 2 + (g 3 :: complex)"
  by (simp add: eval_nat_numeral)

lemma clicks_magnitudes:
  assumes "f \<in> {0, 1, 2, 3, 4}"
  shows "\<exists>peak. frameMagnitudes (clicksEnv ranges) clicks (f * 4)
           = Inr (if f \<in> {1, 3} then [3 / 4, 3 / 4] else [0, 0], peak)"
proof -
  have p: "(2::nat) ^ 2 = 4" by simp
  have u: "[0..<2] = [0, Suc 0]" by (simp add: upt_rec)
  obtain peak where m: "frameMagnitudes (clicksEnv ranges) clicks (f * 4) =
           Inr (map (\<lambda>v. cmod (\<Sum>k < 4.
                          of_real (fillWindowedSignal clicks (f * 4) 4 (createHannWindow 4) ! k)
                            * rootOf 4 False ^ (k * v)))
                    [0..<2], peak)"
    using frameMagnitudes_values[of "clicksEnv ranges" 2 clicks "f * 4"]
    unfolding p by (auto simp add: clicksEnv_def)
  show ?thesis
  proof (cases "f \<in> {1, 3}")
    case True
    have n: "cmod (rootOf 4 False) = 1" by (simp add: rootOf_def)
    show ?thesis
      unfolding m windowed_click[OF True] using True
      by (simp add: sum4 u norm_mult norm_power n)
  next
    case False
    then have "f \<in> {0, 2, 4}" using assms by auto
    then show ?thesis
      unfolding m using False by (simp add: windowed_silent sum4 u)
  qed
qed

lemma clicks_mixed:
  assumes "f \<in> {0, 1, 2, 3, 4}"
  shows "mixedOf (clicksEnv ranges) f = (if f \<in> {1, 3} then [3 / 4, 3 / 4] else [0, 0])"
proof -
  have u: "[0..<2] = [0, Suc 0]" by (simp add: upt_rec)
  obtain peak where "frameMagnitudes (clicksEnv ranges) clicks (f * 4)
           = Inr (if f \<in> {1, 3} then [3 / 4, 3 / 4] else [0, 0], peak)"
    using clicks_magnitudes[OF assms] by blast
  then show ?thesis
    by (simp add: mixedOf_def clicksEnv_def u)
qed

lemma upt5: "[0..<5] = [0, 1, 2, 3, 4]"
  by (simp add: upt_rec)

lemma clicks_flux:
  "fst (fold (fluxStep (clicksEnv ranges)) [0..<5] (replicate 5 0, replicate 2 0))
     = [0, 3 / 4, 0, 3 / 4, 0]"
proof -
  have u: "[0..<2] = [0, Suc 0]" by (simp add: upt_rec)
  have r5: "replicate 5 (0::real) = [0, 0, 0, 0, 0]" by (simp add: eval_nat_numeral)
  have r2: "replicate 2 (0::real) = [0, 0]" by (simp add: eval_nat_numeral)
  have nb: "envNumBins (clicksEnv ranges) = 2" by (simp add: clicksEnv_def)
  show ?thesis
    unfolding upt5 r5 r2
    by (simp add: fluxStep_def clicks_mixed nb frameFlux_def u Let_def)
qed

lemma clicks_onsets:
  "detectOnsets [0, 3 / 4, 0, 3 / 4, 0] (computeRunningMedian [0, 3 / 4, 0, 3 / 4, 0] 10) = [1, 3]"
  by code_simp

lemma length_clicks: "length clicks = 20"
  by (simp add: clicks_def)

lemma payload_clicks_analyse:
  "runPrecompute payload_clicks = analyseChannels 44100 4 4 40 20 clicks clicks"
  by (simp add: runPrecompute_def payload_clicks_def toFloat32Array_def precomputeChannels_def
        effNumSamples_def effSampleRate_def effFftSize_def effHopSize_def effNumBands_def
        numberOr_def sanitizePowerOfTwo_def isInteger_def DEFAULT_NUM_BANDS_def length_clicks)

lemma payload_clicks_run:
  "\<exists>sent b. runPrecompute payload_clicks = (sent, Inr b) \<and> r_onsets b = [1, 3] \<and> r_numFrames b = 5"
proof -
  have "\<exists>b. runPrecompute payload_clicks =
               (successNotifications (nat (numFramesOf
                   (effNumSamples payload_clicks (length clicks) (length clicks))
                   (effFftSize payload_clicks) (effHopSize payload_clicks))), Inr b)
           \<and> r_fftSize b = effFftSize payload_clicks
           \<and> r_numSamples b = effNumSamples payload_clicks (length clicks) (length clicks)
           \<and> r_numFrames b = numFramesOf
                   (effNumSamples payload_clicks (length clicks) (length clicks))
                   (effFftSize payload_clicks) (effHopSize payload_clicks)"
    by (rule runPrecompute_returns)
       (simp_all add: payload_clicks_def toFloat32Array_def effNumBands_def effFftSize_def
          numberOr_def sanitizePowerOfTwo_def isInteger_def DEFAULT_NUM_BANDS_def clicks_def)
  then obtain sent b where run: "runPrecompute payload_clicks = (sent, Inr b)" by blast
  then have a: "analyseChannels 44100 4 4 40 20 clicks clicks = (sent, Inr b)"
    by (simp only: payload_clicks_analyse)
  have nf: "nat (numFramesOf 20 4 4) = 5" by (simp add: numFramesOf_def)
  have nb: "nat (numBinsOf 4) = 2" by (simp add: numBinsOf_eq)
  have "r_spectralFlux b = [0, 3 / 4, 0, 3 / 4, 0]"
    unfolding analyseChannels_flux[OF a] nf nb
    using clicks_flux[of "computeBandBinRanges (computeBandFrequencies (nat 40) 44100)
                            44100 4 (numBinsOf 4)"]
    by (simp add: clicksEnv_def)
  moreover have "r_onsets b = detectOnsets (r_spectralFlux b) (computeRunningMedian (r_spectralFlux b) 10)"
    and "int (length (r_spectralFlux b)) = r_numFrames b"
    using analyseChannels_onsets[OF a] by blast+
  ultimately have "r_onsets b = [1, 3]" and "r_numFrames b = 5"
    by (simp_all add: clicks_onsets)
  with run show ?thesis by blast
qed

text \<open>
  The run on \<open>payload_clicks\<close> has the spectral flux \<open>[0, 3/4, 0, 3/4, 0]\<close> and returns
  the onsets 1 and 3 of its five frames: an instance of claim C8.
\<close>

theorem bundle_onsets_increasing_witness:
  "r_onsets (projr (snd (runPrecompute payload_clicks))) = [1, 3]
   \<and> r_numFrames (projr (snd (runPrecompute payload_clicks))) = 5
   \<and> sorted_wrt (<) (r_onsets (projr (snd (runPrecompute payload_clicks))))
   \<and> list_all (\<lambda>i. int i < r_numFrames (projr (snd (runPrecompute payload_clicks))))
        (r_onsets (projr (snd (runPrecompute payload_clicks))))"
proof -
  obtain sent b where run: "runPrecompute payload_clicks = (sent, Inr b)"
    and o: "r_onsets b = [1, 3]" and n: "r_numFrames b = 5"
    using payload_clicks_run by blast
  from bundle_onsets_increasing [OF run] o n show ?thesis
    by (simp add: run)
qed

end
